theory Spec2Isabelle
  imports Complex_Main "HOL-Library.Sublist"
begin

text \<open>
  The discovery-to-decision pipeline of the engagement agent: scoring and filtering of
  scraped posts (\<open>filter.py\<close>), the store (\<open>database.py\<close>), comment generation
  with provider fallback (\<open>generator.py\<close>), the account scheduler (\<open>scraper.py\<close>),
  one run of the pipeline (\<open>main.py\<close>) and the approval handlers of the control channel
  (\<open>telegram_bot.py\<close>). External capabilities (the scraper's browser, the generation
  providers, the auto-poster, the clock) enter as parameters that give the outcome of a
  call; an exception is the \<open>Inl\<close> of a sum.
\<close>

section \<open>Strings\<close>

text \<open>
  Python strings are modelled as HOL strings (byte lists; a code point beyond ASCII is
  its UTF-8 bytes). \<open>s in t\<close> is the substring test. \<open>str.lower\<close> is a function of
  the Python runtime (the Unicode case mapping): \<open>score_post\<close> takes it as its
  parameter \<open>L\<close>. Where the pipeline is run as a whole, \<open>lower\<close> stands for it, which
  lowers the ASCII letters and leaves every other byte as it is.
\<close>

definition lower_char :: "char \<Rightarrow> char" where
  "lower_char c =
     (let n = (of_char c :: nat) in if 65 \<le> n \<and> n \<le> 90 then char_of (n + 32) else c)"

definition lower :: "string \<Rightarrow> string" where
  "lower s = map lower_char s"

fun startswith :: "string \<Rightarrow> string \<Rightarrow> bool" where
  "startswith ys [] = True"
| "startswith [] (x # xs) = False"
| "startswith (y # ys) (x # xs) = (x = y \<and> startswith ys xs)"

fun str_in :: "string \<Rightarrow> string \<Rightarrow> bool" where
  "str_in s [] = (s = [])"
| "str_in s (c # cs) = (startswith (c # cs) s \<or> str_in s cs)"

section \<open>Scraped posts\<close>

text \<open>
  A scraped post is a Python dict. The record holds what the source reads from it:
  a numeric field holds \<open>post.get(key, 0)\<close> (a missing key reads as 0),
  \<open>post_text\<close> holds \<open>post.get("text", "")\<close>, and \<open>post_id\<close>, \<open>created_at\<close> and
  \<open>source\<close> are \<open>None\<close> when the key is missing or holds \<open>None\<close>;
  \<open>top_replies\<close> holds \<open>post.get("top_replies", [])\<close>. Instants are microseconds
  since the epoch (the resolution of \<open>datetime\<close>), in UTC.
\<close>

record reply =
  reply_handle :: string
  reply_text :: string
  reply_likes :: int

record post =
  post_id :: "string option"
  url :: string
  author_handle :: string
  author_name :: string
  author_followers :: int
  author_verified :: bool
  post_text :: string
  views :: int
  likes :: int
  replies :: int
  retweets :: int
  created_at :: "int option"
  priority_boost :: int
  source :: "string option"
  score :: real
  top_replies :: "reply list"

section \<open>Double-precision arithmetic\<close>

text \<open>
  \<open>hours_old\<close> and \<open>velocity\<close> are Python floats. A double is written
  \<open>mant * 2 ^ expo\<close>. The quotient of two integers is rounded to 53 significant bits,
  ties to the even mantissa: this is what \<open>int / int\<close> and \<open>float(int)\<close> compute, and
  the division of two floats is the rounded quotient of their values (IEEE 754 binary64,
  round to nearest). The exponent is not bounded, so overflow and subnormal numbers are
  outside the model; neither is reached by the difference of two 64-bit instants or a
  count below \<open>2 ^ 1024\<close>. A division by zero, which the source excludes by its test
  \<open>hours_old > 0\<close>, gives 0 here.
\<close>

datatype double = Double (mant: int) (expo: int)

definition dval :: "double \<Rightarrow> real" where
  "dval x = (if 0 \<le> expo x then real_of_int (mant x) * 2 ^ nat (expo x)
             else real_of_int (mant x) / 2 ^ nat (- expo x))"

fun bit_length :: "nat \<Rightarrow> nat" where
  "bit_length n = (if n = 0 then 0 else Suc (bit_length (n div 2)))"

declare bit_length.simps [simp del]

text \<open>\<open>n / d\<close> rounded to the nearest integer, a tie to the even one.\<close>

definition rne :: "int \<Rightarrow> int \<Rightarrow> int" where
  "rne n d =
     (let q = n div d; r = n mod d
      in if 2 * r < d then q else if 2 * r > d then q + 1 else if even q then q else q + 1)"

text \<open>
  \<open>a / b\<close> for positive \<open>a\<close> and \<open>b\<close>: the quotient is scaled by a power of two so that
  it lies between \<open>2 ^ 52\<close> and \<open>2 ^ 54\<close>, then rounded to an integer mantissa of 53 bits.
\<close>

definition round_pos :: "int \<Rightarrow> int \<Rightarrow> double" where
  "round_pos a b =
     (let e0 = int (bit_length (nat a)) - int (bit_length (nat b)) - 53;
          n = (if e0 < 0 then a * 2 ^ nat (- e0) else a);
          d = (if e0 < 0 then b else b * 2 ^ nat e0)
      in if n < 2 ^ 53 * d then Double (rne n d) e0 else Double (rne n (2 * d)) (e0 + 1))"

definition round_quot :: "int \<Rightarrow> int \<Rightarrow> double" where
  "round_quot a b =
     (if a = 0 \<or> b = 0 then Double 0 0
      else (let r = round_pos \<bar>a\<bar> \<bar>b\<bar>
            in if (0 < a) = (0 < b) then r else Double (- mant r) (expo r)))"

definition float_of_int :: "int \<Rightarrow> double" where
  "float_of_int v = round_quot v 1"

definition fdiv :: "double \<Rightarrow> double \<Rightarrow> double" where
  "fdiv x y =
     (if expo y \<le> expo x then round_quot (mant x * 2 ^ nat (expo x - expo y)) (mant y)
      else round_quot (mant x) (mant y * 2 ^ nat (expo y - expo x)))"

text \<open>\<open>timedelta.total_seconds()\<close>: the microseconds of the difference, divided by \<open>10 ** 6\<close>.\<close>

definition total_seconds :: "int \<Rightarrow> double" where
  "total_seconds delta = round_quot delta 1000000"

text \<open>\<open>(now - created_at).total_seconds() / 3600\<close>.\<close>

definition hours_since :: "int \<Rightarrow> int \<Rightarrow> double" where
  "hours_since now t = fdiv (total_seconds (now - t)) (float_of_int 3600)"

section \<open>Scoring (filter.py, score\_post)\<close>

definition debatable :: "string list" where
  "debatable =
     [''vs '', '' vs'', ''dying'', ''dead'', ''overhyped'', ''wrong'', ''actually'',
      ''controversial'', ''unpopular opinion'', ''hot take'', ''disagree'',
      ''overrated'', ''underrated'', ''nobody talks about'', ''stop using'',
      ''replace'', ''killed'', ''extinct'', ''broken'']"

definition comparison :: "string list" where
  "comparison = [''better than'', ''worse than'', ''compared to'', ''difference between'']"

text \<open>
  The body of \<open>score_post\<close>, statement by statement; \<open>now\<close> is the clock reading the
  function takes on entry and \<open>L\<close> is \<open>str.lower\<close>. Each \<open>if c: score += k\<close> is written
  \<open>score + (if c then k else 0)\<close>. The running sum is a float that holds a small whole
  number, on which addition is exact (for a priority boost below \<open>2 ^ 53\<close>); it is
  written as a real. A float is compared with an integer literal by its value.
\<close>

definition score_post :: "(string \<Rightarrow> string) \<Rightarrow> int \<Rightarrow> post \<Rightarrow> real" where
  "score_post L now p =
    (let score = 0;
         followers = author_followers p;
         score = score + (if followers > 50000 then 5
                          else if followers > 10000 then 3
                          else if followers > 1000 then 1 else 0);
         views = views p;
         score = score + (if views > 10000 then 5
                          else if views > 5000 then 3
                          else if views > 1000 then 2 else 0);
         hours_old = (case created_at p of None \<Rightarrow> None
                      | Some t \<Rightarrow> Some (hours_since now t));
         score = score + (case hours_old of None \<Rightarrow> 0
                          | Some h \<Rightarrow>
                              if dval h > 0 then
                                (let velocity = fdiv (float_of_int views) h in
                                 if dval velocity > 1000 then 4
                                 else if dval velocity > 500 then 2 else 0)
                              else 0);
         score = score + (if author_verified p then 2 else 0);
         score = score + (if likes p > 50 then 2 else 0);
         score = score + (if replies p > 10 then 2 else 0);
         score = score + (case hours_old of None \<Rightarrow> 0
                          | Some h \<Rightarrow> if dval h < 3 then 3 else if dval h < 12 then 1 else 0);
         score = score + real_of_int (priority_boost p);
         text_l = L (post_text p);
         score = score + (if views > 5000 \<and> replies p < 20 then 3 else 0);
         score = score + (if list_ex (\<lambda>s. str_in s text_l) debatable then 2 else 0);
         score = score + (if list_ex (\<lambda>s. str_in s text_l) comparison then 1 else 0)
     in score)"

subsection \<open>The formula of the specification\<close>

text \<open>
  The additive formula as the specification words it, one definition per term, to be
  compared with \<open>score_post\<close>. The age of a post is the exact number of hours since its
  creation (an hour is 3600000000 microseconds) and the velocity the exact quotient of
  the views by the age. A text mentions a phrase when the phrase occurs in it as a
  contiguous part (\<open>sublist\<close>), case being ignored by lowering both.
\<close>

definition followers_term :: "int \<Rightarrow> real" where
  "followers_term f = (if f > 50000 then 5 else if f > 10000 then 3 else if f > 1000 then 1 else 0)"

definition views_term :: "int \<Rightarrow> real" where
  "views_term v = (if v > 10000 then 5 else if v > 5000 then 3 else if v > 1000 then 2 else 0)"

definition age_hours :: "int \<Rightarrow> post \<Rightarrow> real option" where
  "age_hours now p =
     (case created_at p of None \<Rightarrow> None
      | Some t \<Rightarrow> Some (real_of_int (now - t) / 3600000000))"

definition velocity_term :: "int \<Rightarrow> real option \<Rightarrow> real" where
  "velocity_term v age =
     (case age of None \<Rightarrow> 0
      | Some h \<Rightarrow> if 0 < h then (if real_of_int v / h > 1000 then 4
                                 else if real_of_int v / h > 500 then 2 else 0)
                  else 0)"

definition recency_term :: "real option \<Rightarrow> real" where
  "recency_term age = (case age of None \<Rightarrow> 0 | Some h \<Rightarrow> if h < 3 then 3 else if h < 12 then 1 else 0)"

definition first_mover_term :: "int \<Rightarrow> int \<Rightarrow> real" where
  "first_mover_term v r = (if v > 5000 \<and> r < 20 then 3 else 0)"

definition mentions_any :: "(string \<Rightarrow> string) \<Rightarrow> string list \<Rightarrow> string \<Rightarrow> bool" where
  "mentions_any L phrases t = list_ex (\<lambda>ph. sublist (L ph) (L t)) phrases"

definition spec_score :: "(string \<Rightarrow> string) \<Rightarrow> int \<Rightarrow> post \<Rightarrow> real" where
  "spec_score L now p =
     followers_term (author_followers p)
     + views_term (views p)
     + velocity_term (views p) (age_hours now p)
     + (if author_verified p then 2 else 0)
     + (if likes p > 50 then 2 else 0)
     + (if replies p > 10 then 2 else 0)
     + recency_term (age_hours now p)
     + real_of_int (priority_boost p)
     + first_mover_term (views p) (replies p)
     + (if mentions_any L debatable (post_text p) then 2 else 0)
     + (if mentions_any L comparison (post_text p) then 1 else 0)"

text \<open>
  The posts on which the rounding of the floats cannot decide a velocity tier: the
  exact velocity, when there is one, is not within one part in \<open>10 ^ 15\<close> of 1000 or
  of 500. \<open>keeps_phrases\<close> says that lowering leaves the phrases of the two tables, which
  are written in lower case, as they are.
\<close>

definition clear_of :: "real \<Rightarrow> real \<Rightarrow> bool" where
  "clear_of c x = (x \<le> c * (1 - 1 / 10 ^ 15) \<or> c * (1 + 1 / 10 ^ 15) \<le> x)"

definition off_ties :: "int \<Rightarrow> post \<Rightarrow> bool" where
  "off_ties now p =
     (case age_hours now p of None \<Rightarrow> True
      | Some h \<Rightarrow> h \<le> 0 \<or> (clear_of 1000 (real_of_int (views p) / h)
                             \<and> clear_of 500 (real_of_int (views p) / h)))"

definition keeps_phrases :: "(string \<Rightarrow> string) \<Rightarrow> bool" where
  "keeps_phrases L = list_all (\<lambda>ph. L ph = ph) (debatable @ comparison)"

section \<open>Filtering and ranking (filter.py, filter\_and\_rank\_posts)\<close>

text \<open>
  The configuration after the defaults of \<open>config.get\<close> are applied: a field holds the
  configured value, or the default of the source when the key is missing.
\<close>

record config =
  min_score :: real
  min_views :: int
  min_author_followers :: int
  top_n_posts :: int
  max_post_age_hours :: real
  llm_provider :: string

text \<open>The slice \<open>xs[:n]\<close>; a negative \<open>n\<close> counts from the end.\<close>

definition py_take :: "int \<Rightarrow> 'a list \<Rightarrow> 'a list" where
  "py_take n xs = (if 0 \<le> n then take (nat n) xs else take (length xs - nat (- n)) xs)"

text \<open>
  The loop of \<open>filter_and_rank_posts\<close>; each \<open>continue\<close> is a recursive call that
  leaves \<open>candidates\<close> as it is. \<open>seen_db_ids\<close> is the id column of the store,
  \<open>now\<close> the clock reading taken before the loop, and \<open>clock pid\<close> the reading
  \<open>score_post\<close> takes when it scores the post with id \<open>pid\<close> (an id is scored at
  most once in a run). The age test compares the float \<open>hours_old\<close> with the configured
  number of hours; \<open>score_post\<close> is run with \<open>lower\<close> for \<open>str.lower\<close>.
\<close>

fun filter_loop ::
  "config \<Rightarrow> string option set \<Rightarrow> int \<Rightarrow> (string \<Rightarrow> int) \<Rightarrow> post list \<Rightarrow>
     string set \<Rightarrow> post list \<Rightarrow> post list" where
  "filter_loop cfg seen_db_ids now clock [] seen_this_run candidates = candidates"
| "filter_loop cfg seen_db_ids now clock (p # ps) seen_this_run candidates =
     (case post_id p of
        None \<Rightarrow> filter_loop cfg seen_db_ids now clock ps seen_this_run candidates
      | Some pid \<Rightarrow>
          if pid = [] then filter_loop cfg seen_db_ids now clock ps seen_this_run candidates
          else if pid \<in> seen_this_run
            then filter_loop cfg seen_db_ids now clock ps seen_this_run candidates
          else
            (let seen_this_run = insert pid seen_this_run in
             if Some pid \<in> seen_db_ids
               then filter_loop cfg seen_db_ids now clock ps seen_this_run candidates
             else if (case created_at p of None \<Rightarrow> False
                      | Some t \<Rightarrow> dval (hours_since now t) > max_post_age_hours cfg)
               then filter_loop cfg seen_db_ids now clock ps seen_this_run candidates
             else if views p > 0 \<and> views p < min_views cfg
               then filter_loop cfg seen_db_ids now clock ps seen_this_run candidates
             else if author_followers p > 0 \<and> author_followers p < min_author_followers cfg
               then filter_loop cfg seen_db_ids now clock ps seen_this_run candidates
             else
               (let post_score = score_post lower (clock pid) p;
                    p = p\<lparr>score := post_score\<rparr>;
                    p = p\<lparr>source := Some (case source p of None \<Rightarrow> ''topic_search''
                                                | Some s \<Rightarrow> s)\<rparr>
                in if post_score \<ge> min_score cfg
                   then filter_loop cfg seen_db_ids now clock ps seen_this_run (candidates @ [p])
                   else filter_loop cfg seen_db_ids now clock ps seen_this_run candidates)))"

text \<open>
  \<open>candidates.sort(key=score, reverse=True)\<close> is stable, as \<open>sort_key\<close> on the
  negated score is; then the slice to \<open>top_n\<close>.
\<close>

definition filter_and_rank_posts ::
  "config \<Rightarrow> string option set \<Rightarrow> int \<Rightarrow> (string \<Rightarrow> int) \<Rightarrow> post list \<Rightarrow> post list" where
  "filter_and_rank_posts cfg seen_db_ids now clock posts =
     (let candidates = filter_loop cfg seen_db_ids now clock posts {} [];
          candidates = sort_key (\<lambda>p. - score p) candidates
      in py_take (top_n_posts cfg) candidates)"

section \<open>The store (database.py)\<close>

text \<open>
  The four relations the core writes, as row lists in insertion order. An
  \<open>AUTOINCREMENT\<close> key is the row count plus one (no row is ever deleted). A
  \<open>TIMESTAMP\<close> column holds an instant; \<open>ts\<close> below is the store's
  \<open>CURRENT_TIMESTAMP\<close> when the statement runs.
\<close>

datatype status = Pending | Approved | Skipped | Posted

datatype issue =
    TooShort nat
  | OverLimit nat
  | GenericOpener string
  | ForcedMention
  | NoDepth
  | GenerationFailed string

record post_row =
  r_id :: "string option"
  r_url :: string
  r_author_handle :: string
  r_author_name :: string
  r_author_followers :: int
  r_author_verified :: bool
  r_text :: string
  r_views :: int
  r_likes :: int
  r_replies :: int
  r_retweets :: int
  r_created_at :: "int option"
  r_discovered_at :: int
  r_source :: "string option"
  r_score :: real
  r_status :: status

record comment_row =
  c_id :: nat
  c_post_id :: string
  c_comment_type :: string
  c_text :: string
  c_generated_at :: int
  c_issues :: "issue list"

record approval_row =
  a_id :: nat
  a_post_id :: string
  a_comment_id :: nat
  a_option_chosen :: string
  a_custom_text :: "string option"
  a_approved_at :: int
  a_posted_at :: "int option"

record database =
  posts :: "post_row list"
  comments :: "comment_row list"
  approvals :: "approval_row list"
  account_checks :: "(string \<times> int option) list"

definition empty_db :: database where
  "empty_db = \<lparr>posts = [], comments = [], approvals = [], account_checks = []\<rparr>"

text \<open>
  \<open>INSERT OR IGNORE\<close>: the row is dropped when its id or its url (\<open>UNIQUE\<close>) is
  already in the table; a \<open>NULL\<close> id conflicts with nothing. The status is the
  literal \<open>'pending'\<close>.
\<close>

definition insert_post :: "int \<Rightarrow> post \<Rightarrow> database \<Rightarrow> database" where
  "insert_post ts p db =
     (if list_ex (\<lambda>r. (r_id r = post_id p \<and> post_id p \<noteq> None) \<or> r_url r = url p) (posts db)
      then db
      else db\<lparr>posts := posts db @
             [\<lparr>r_id = post_id p, r_url = url p, r_author_handle = author_handle p,
               r_author_name = author_name p, r_author_followers = author_followers p,
               r_author_verified = author_verified p, r_text = post_text p,
               r_views = views p, r_likes = likes p, r_replies = replies p,
               r_retweets = retweets p, r_created_at = created_at p, r_discovered_at = ts,
               r_source = source p, r_score = score p, r_status = Pending\<rparr>]\<rparr>)"

definition update_post_status :: "string \<Rightarrow> status \<Rightarrow> database \<Rightarrow> database" where
  "update_post_status pid st db =
     db\<lparr>posts := map (\<lambda>r. if r_id r = Some pid then r\<lparr>r_status := st\<rparr> else r) (posts db)\<rparr>"

definition get_post :: "database \<Rightarrow> string \<Rightarrow> post_row option" where
  "get_post db pid = find (\<lambda>r. r_id r = Some pid) (posts db)"

definition get_already_seen_ids :: "database \<Rightarrow> string option set" where
  "get_already_seen_ids db = set (map r_id (posts db))"

definition insert_comment ::
  "int \<Rightarrow> string \<Rightarrow> string \<Rightarrow> string \<Rightarrow> issue list \<Rightarrow> database \<Rightarrow> database \<times> nat" where
  "insert_comment ts pid comment_type txt issues db =
     (let cid = Suc (length (comments db))
      in (db\<lparr>comments := comments db @
              [\<lparr>c_id = cid, c_post_id = pid, c_comment_type = comment_type, c_text = txt,
                c_generated_at = ts, c_issues = issues\<rparr>]\<rparr>, cid))"

definition get_comments_for_post :: "database \<Rightarrow> string \<Rightarrow> comment_row list" where
  "get_comments_for_post db pid = filter (\<lambda>c. c_post_id c = pid) (comments db)"

definition insert_approval ::
  "int \<Rightarrow> string \<Rightarrow> nat \<Rightarrow> string \<Rightarrow> string option \<Rightarrow> database \<Rightarrow> database \<times> nat" where
  "insert_approval ts pid cid opt custom_text db =
     (let aid = Suc (length (approvals db))
      in (db\<lparr>approvals := approvals db @
              [\<lparr>a_id = aid, a_post_id = pid, a_comment_id = cid, a_option_chosen = opt,
                a_custom_text = custom_text, a_approved_at = ts, a_posted_at = None\<rparr>]\<rparr>, aid))"

definition mark_posted :: "int \<Rightarrow> nat \<Rightarrow> database \<Rightarrow> database" where
  "mark_posted ts aid db =
     db\<lparr>approvals := map (\<lambda>a. if a_id a = aid then a\<lparr>a_posted_at := Some ts\<rparr> else a)
                         (approvals db)\<rparr>"

definition get_last_check_time :: "database \<Rightarrow> string \<Rightarrow> int option" where
  "get_last_check_time db h =
     (case map_of (account_checks db) h of None \<Rightarrow> None | Some checked \<Rightarrow> checked)"

text \<open>The upsert of \<open>update_last_check_time\<close>: the handle is the primary key.\<close>

definition update_last_check_time :: "int \<Rightarrow> string \<Rightarrow> database \<Rightarrow> database" where
  "update_last_check_time ts h db =
     (if list_ex (\<lambda>(h', _). h' = h) (account_checks db)
      then db\<lparr>account_checks :=
               map (\<lambda>(h', checked). if h' = h then (h', Some ts) else (h', checked))
                   (account_checks db)\<rparr>
      else db\<lparr>account_checks := account_checks db @ [(h, Some ts)]\<rparr>)"

definition add_to_watchlist :: "string \<Rightarrow> database \<Rightarrow> database \<times> bool" where
  "add_to_watchlist h db =
     (if list_ex (\<lambda>(h', _). h' = h) (account_checks db) then (db, False)
      else (db\<lparr>account_checks := account_checks db @ [(h, None)]\<rparr>, True))"

section \<open>Comment generation (generator.py)\<close>

definition DOMAIN_TERMS :: "string list" where
  "DOMAIN_TERMS =
     [''RLHF'', ''DPO'', ''PPO'', ''distillation'', ''agent'', ''reasoning'', ''post-training'',
      ''alignment'', ''tool use'', ''orchestration'', ''memory'', ''RAG'', ''embeddings'',
      ''context'', ''inference'', ''fine-tuning'', ''transformer'', ''attention'', ''token'',
      ''model'', ''training'', ''dataset'', ''benchmark'', ''evaluation'', ''prompt'',
      ''dashboard'', ''SQL'', ''analytics'', ''pipeline'', ''vector'', ''retrieval'',
      ''markdown'', ''parsing'', ''chunking'', ''LLM'', ''API'', ''latency'', ''throughput'',
      ''accuracy'', ''precision'', ''recall'', ''loss'', ''gradient'', ''weight'']"

definition GENERIC_OPENERS :: "string list" where
  "GENERIC_OPENERS =
     [''great post'', ''thanks for sharing'', ''interesting perspective'',
      ''i agree with'', ''this is important'', ''well said'', ''totally agree'',
      ''love this'', ''so true'', ''100%'']"

text \<open>The keys of \<open>PROMPTS\<close>, in the order the dict lists them.\<close>

definition PROMPTS :: "string list" where
  "PROMPTS = [''challenge'', ''expand'', ''nuanced'', ''question'']"

text \<open>
  A prompt is the tone's template filled with the context built from the post, so it is
  determined by the tone and the post; it is kept as that pair. A generation provider is
  an external capability: its answer to a prompt is \<open>Inr\<close> the completed text, or
  \<open>Inl\<close> the message of the exception the call raised.
\<close>

type_synonym prompt = "string \<times> post"

type_synonym provider = "prompt \<Rightarrow> string + string"

datatype backend = Groq | Gemini

text \<open>
  \<open>_call_llm\<close>: the configured provider first, the other one in the \<open>except\<close>
  branch, whose exception is not caught here. The first component lists the backends
  called, in order.
\<close>

definition call_llm ::
  "config \<Rightarrow> provider \<Rightarrow> provider \<Rightarrow> prompt \<Rightarrow> backend list \<times> (string + string)" where
  "call_llm cfg groq gemini prompt =
     (if llm_provider cfg = ''groq'' then
        (case groq prompt of
           Inr txt \<Rightarrow> ([Groq], Inr txt)
         | Inl e \<Rightarrow> ([Groq, Gemini], gemini prompt))
      else
        (case gemini prompt of
           Inr txt \<Rightarrow> ([Gemini], Inr txt)
         | Inl e \<Rightarrow> ([Gemini, Groq], groq prompt)))"

text \<open>The issue messages are kept as constructors carrying the numbers and phrases they print.\<close>

definition validate_comment :: "string \<Rightarrow> bool \<times> issue list" where
  "validate_comment comment =
     (let issues = [];
          issues = (if length comment < 150 then issues @ [TooShort (length comment)] else issues);
          issues = (if length comment > 280 then issues @ [OverLimit (length comment)] else issues);
          issues = (case find (\<lambda>phrase. str_in phrase (lower comment)) GENERIC_OPENERS of
                      None \<Rightarrow> issues
                    | Some phrase \<Rightarrow> issues @ [GenericOpener phrase]);
          issues = (if str_in ''afterburn'' (lower comment) then
                      (let low = lower comment in
                       if str_in ''check out afterburn'' low \<or> str_in ''try afterburn'' low
                       then issues @ [ForcedMention] else issues)
                    else issues);
          has_depth = list_ex (\<lambda>t. str_in (lower t) (lower comment)) DOMAIN_TERMS;
          issues = (if \<not> has_depth then issues @ [NoDepth] else issues)
      in (issues = [], issues))"

text \<open>
  \<open>generate_comments\<close>: one \<open>try\<close> per tone; the result dict as the list of its
  items, in insertion order.
\<close>

definition generate_tone ::
  "config \<Rightarrow> provider \<Rightarrow> provider \<Rightarrow> post \<Rightarrow> string \<Rightarrow> string \<times> issue list" where
  "generate_tone cfg groq gemini p tone =
     (case snd (call_llm cfg groq gemini (tone, p)) of
        Inr txt \<Rightarrow> (txt, snd (validate_comment txt))
      | Inl e \<Rightarrow> ('''', [GenerationFailed e]))"

definition generate_comments ::
  "config \<Rightarrow> provider \<Rightarrow> provider \<Rightarrow> post \<Rightarrow> (string \<times> string \<times> issue list) list" where
  "generate_comments cfg groq gemini p =
     map (\<lambda>tone. (tone, generate_tone cfg groq gemini p tone)) PROMPTS"

section \<open>Discovery and the account scheduler (scraper.py)\<close>

text \<open>
  The Source capability: what a scrape of a keyword, of a profile or of a tweet's replies
  returns, or \<open>Inl\<close> the message of the exception it raised.
\<close>

record sources =
  scrape_keyword :: "string \<Rightarrow> string + post list"
  scrape_profile :: "string \<Rightarrow> string + post list"
  scrape_tweet_replies :: "string \<Rightarrow> string + reply list"

text \<open>A watched account, after the defaults of \<open>acct.get\<close>.\<close>

record account =
  handle :: string
  priority :: string
  check_every_hours :: int

definition discover_posts_by_topic ::
  "(string \<Rightarrow> string + post list) \<Rightarrow> string list \<Rightarrow> string option set \<Rightarrow> post list" where
  "discover_posts_by_topic scrape keywords seen_ids =
     concat (map (\<lambda>kw. case scrape kw of
                          Inl e \<Rightarrow> []
                        | Inr ps \<Rightarrow> filter (\<lambda>p. post_id p \<notin> seen_ids) ps) keywords)"

text \<open>What the scheduler logs for an account: skipped, polled (with the count) or failed.\<close>

datatype acct_log = Skipping string | PolledNew string nat | ErrorScraping string string

text \<open>
  The body of the loop of \<open>check_monitored_accounts\<close> for one account. \<open>now\<close> is the
  reading taken before the loop, \<open>ts\<close> the store's \<open>CURRENT_TIMESTAMP\<close> when the
  row of the handle is written.
\<close>

definition check_account ::
  "(string \<Rightarrow> string + post list) \<Rightarrow> (string \<Rightarrow> int) \<Rightarrow> int \<Rightarrow> string option set \<Rightarrow>
     account \<Rightarrow> database \<Rightarrow> database \<times> post list \<times> acct_log" where
  "check_account scrape ts now seen_ids acct db =
     (let h = handle acct;
          interval_hours = check_every_hours acct;
          prio = priority acct;
          last_check = get_last_check_time db h
      in if (case last_check of None \<Rightarrow> False
             | Some t \<Rightarrow> now - t < interval_hours * 3600000000)
         then (db, [], Skipping h)
         else
           (case scrape h of
              Inl e \<Rightarrow> (db, [], ErrorScraping h e)
            | Inr ps \<Rightarrow>
                (let new = filter (\<lambda>p. post_id p \<notin> seen_ids) ps;
                     boost = (if prio = ''high'' then 3 else if prio = ''medium'' then 1 else 0);
                     new = map (\<lambda>p. p\<lparr>priority_boost := boost,
                                        source := Some ''account_monitor''\<rparr>) new
                 in (update_last_check_time (ts h) h db, new, PolledNew h (length new)))))"

fun accounts_loop ::
  "(string \<Rightarrow> string + post list) \<Rightarrow> (string \<Rightarrow> int) \<Rightarrow> int \<Rightarrow> string option set \<Rightarrow>
     account list \<Rightarrow> database \<Rightarrow> post list \<Rightarrow> acct_log list \<Rightarrow>
     database \<times> post list \<times> acct_log list" where
  "accounts_loop scrape ts now seen_ids [] db all_posts logged = (db, all_posts, logged)"
| "accounts_loop scrape ts now seen_ids (acct # accts) db all_posts logged =
     (case check_account scrape ts now seen_ids acct db of
        (db', new, entry) \<Rightarrow>
          accounts_loop scrape ts now seen_ids accts db' (all_posts @ new) (logged @ [entry]))"

definition check_monitored_accounts ::
  "(string \<Rightarrow> string + post list) \<Rightarrow> (string \<Rightarrow> int) \<Rightarrow> int \<Rightarrow> string option set \<Rightarrow>
     account list \<Rightarrow> database \<Rightarrow> database \<times> post list \<times> acct_log list" where
  "check_monitored_accounts scrape ts now seen_ids accounts db =
     accounts_loop scrape ts now seen_ids accounts db [] []"

section \<open>One run of the pipeline (main.py, run\_once)\<close>

text \<open>
  The clock readings of one run: \<open>accounts_now\<close> and \<open>filter_now\<close> are the readings
  \<open>check_monitored_accounts\<close> and \<open>filter_and_rank_posts\<close> take on entry,
  \<open>score_now\<close> the reading \<open>score_post\<close> takes for a post id, \<open>check_ts\<close> and
  \<open>store_ts\<close> the store's \<open>CURRENT_TIMESTAMP\<close> when it writes the row of a handle,
  and a post or comment row.
\<close>

record clocks =
  accounts_now :: int
  filter_now :: int
  score_now :: "string \<Rightarrow> int"
  check_ts :: "string \<Rightarrow> int"
  store_ts :: int

text \<open>Step 3: the replies found for a ranked post, or none when the scrape raised.\<close>

definition research_replies :: "sources \<Rightarrow> post \<Rightarrow> post" where
  "research_replies src p =
     (case scrape_tweet_replies src (url p) of
        Inr rs \<Rightarrow> p\<lparr>top_replies := rs\<rparr>
      | Inl e \<Rightarrow> p\<lparr>top_replies := []\<rparr>)"

text \<open>The inner loop of step 4: a tone's text is stored when it is not empty.\<close>

fun store_comments ::
  "int \<Rightarrow> string \<Rightarrow> (string \<times> string \<times> issue list) list \<Rightarrow> database \<Rightarrow> database" where
  "store_comments ts pid [] db = db"
| "store_comments ts pid ((tone, txt, issues) # rest) db =
     (if txt \<noteq> [] then store_comments ts pid rest (fst (insert_comment ts pid tone txt issues db))
      else store_comments ts pid rest db)"

text \<open>
  Step 4: the post is inserted before the \<open>try\<close>; a post without an id makes
  \<open>insert_comment\<close> raise (\<open>post_id\<close> is \<open>NOT NULL\<close>) on its first stored
  comment, which the \<open>except\<close> logs, and the post is not appended.
\<close>

fun store_loop ::
  "int \<Rightarrow> config \<Rightarrow> provider \<Rightarrow> provider \<Rightarrow> post list \<Rightarrow> database \<Rightarrow>
     (post \<times> (string \<times> string \<times> issue list) list) list \<Rightarrow>
     database \<times> (post \<times> (string \<times> string \<times> issue list) list) list" where
  "store_loop ts cfg groq gemini [] db posts_with_comments = (db, posts_with_comments)"
| "store_loop ts cfg groq gemini (p # ps) db posts_with_comments =
     (let db = insert_post ts p db;
          generated = generate_comments cfg groq gemini p
      in case post_id p of
           Some pid \<Rightarrow>
             store_loop ts cfg groq gemini ps (store_comments ts pid generated db)
               (posts_with_comments @ [(p, generated)])
         | None \<Rightarrow>
             if list_ex (\<lambda>(tone, txt, issues). txt \<noteq> []) generated
             then store_loop ts cfg groq gemini ps db posts_with_comments
             else store_loop ts cfg groq gemini ps db (posts_with_comments @ [(p, generated)]))"

text \<open>
  \<open>run_once\<close> up to the hand-over to the notifier: the store after the run and the
  posts surfaced with their comments. \<open>keywords\<close> is the list of primary and
  viral-potential keywords.
\<close>

definition run_once ::
  "sources \<Rightarrow> provider \<Rightarrow> provider \<Rightarrow> config \<Rightarrow> bool \<Rightarrow> string list \<Rightarrow> account list \<Rightarrow>
     clocks \<Rightarrow> database \<Rightarrow>
     database \<times> (post \<times> (string \<times> string \<times> issue list) list) list" where
  "run_once src groq gemini cfg test_mode keywords accounts clk db =
     (let primary_kws = (if test_mode then py_take 3 keywords else keywords);
          seen_ids = get_already_seen_ids db;
          topic_posts = discover_posts_by_topic (scrape_keyword src) primary_kws seen_ids;
          (db, account_posts) =
             (if \<not> test_mode then
                (case check_monitored_accounts (scrape_profile src) (check_ts clk)
                        (accounts_now clk) seen_ids accounts db of
                   (db', new, logged) \<Rightarrow> (db', new))
              else (db, []));
          all_posts = topic_posts @ account_posts
      in if all_posts = [] then (db, [])
         else
           (let ranked = filter_and_rank_posts cfg (get_already_seen_ids db) (filter_now clk)
                           (score_now clk) all_posts
            in if ranked = [] then (db, [])
               else
                 (let ranked = (if test_mode then py_take 1 ranked else ranked);
                      top = map (research_replies src) (py_take 10 ranked)
                  in store_loop (store_ts clk) cfg groq gemini top db [])))"

section \<open>The control channel (telegram\_bot.py)\<close>

definition TONES :: "string list" where
  "TONES = [''challenge'', ''expand'', ''nuanced'', ''question'']"

definition TONE_LABEL :: "(string \<times> string) list" where
  "TONE_LABEL = [(''challenge'', ''Challenge''), (''expand'', ''Expand''),
                 (''nuanced'', ''Nuanced''), (''question'', ''Question'')]"

text \<open>
  \<open>s.replace(old, "")\<close> for a non-empty \<open>old\<close>, the only use the source makes of
  it: every occurrence is removed, scanning from the left.
\<close>

fun remove_all :: "string \<Rightarrow> string \<Rightarrow> string" where
  "remove_all old [] = []"
| "remove_all old (c # cs) =
     (if old \<noteq> [] \<and> startswith (c # cs) old
      then remove_all old (drop (length old - 1) cs)
      else c # remove_all old cs)"

definition is_space :: "char \<Rightarrow> bool" where
  "is_space c = (c \<in> set [CHR '' '', CHR 0x09, CHR 0x0A, CHR 0x0B, CHR 0x0C, CHR 0x0D])"

definition py_strip :: "string \<Rightarrow> string" where
  "py_strip s = rev (dropWhile is_space (rev (dropWhile is_space s)))"

definition is_digit :: "char \<Rightarrow> bool" where
  "is_digit c = (48 \<le> (of_char c :: nat) \<and> (of_char c :: nat) \<le> 57)"

text \<open>
  \<open>int(s)\<close> on the decimal strings a count token carries: surrounding white space, an
  optional sign, ASCII digits. \<open>None\<close> is the \<open>ValueError\<close>. (Python also accepts
  underscores between digits and non-ASCII digits, which read as \<open>None\<close> here.)
\<close>

definition py_int :: "string \<Rightarrow> int option" where
  "py_int s =
     (let t = py_strip s;
          (sign, ds) = (case t of
                          c # r \<Rightarrow> if c = CHR ''-'' then (- 1, r)
                                   else if c = CHR ''+'' then (1, r) else (1, t)
                        | [] \<Rightarrow> (1 :: int, t))
      in if ds \<noteq> [] \<and> list_all is_digit ds
         then Some (sign * foldl (\<lambda>acc c. acc * 10 + (int (of_char c) - 48)) 0 ds)
         else None)"

text \<open>
  The bot's state: the store behind \<open>_get_db\<close>, the watch-list file
  \<open>accounts.json\<close> (\<open>None\<close> when it cannot be read) and the per-user dict
  \<open>context.user_data\<close>.
\<close>

record user_data =
  editing_post_id :: "string option"
  pending_search_topic :: "string option"

record bot =
  bot_db :: database
  accounts_json :: "account list option"
  bot_user :: user_data

text \<open>The background thread a handler starts.\<close>

datatype task =
    AutoPost string string string nat string
  | RunSearch string int

text \<open>
  What a handler answers on the channel, by the message it sends; \<open>KeyErrorTone\<close> is
  the \<open>KeyError\<close> of \<open>TONE_LABEL[tone]\<close> raised while the message is formatted.
\<close>

datatype answer =
    Ignored
  | SearchExpired
  | Searching string int
  | PostNotFound string
  | NoCommentFound string
  | ManualCopy string string string
  | AutoPosting string string string
  | KeyErrorTone string
  | EditMode string
  | SkippedPost string
  | NoHandleFound
  | Watching string bool
  | AskSearchCount string
  | CustomSaved string string
  | Cancelled

definition add_to_accounts_json :: "string \<Rightarrow> account list option \<Rightarrow> account list option \<times> bool" where
  "add_to_accounts_json h file =
     (let accounts = (case file of None \<Rightarrow> [] | Some accts \<Rightarrow> accts)
      in if list_ex (\<lambda>a. lower (handle a) = lower h) accounts then (file, False)
         else (Some (accounts @ [\<lparr>handle = h, priority = ''medium'', check_every_hours = 6\<rparr>]),
               True))"

text \<open>\<open>{r["comment_type"]: r for r in comments_rows}\<close>: a later row replaces an earlier one.\<close>

definition comment_map :: "comment_row list \<Rightarrow> string \<Rightarrow> comment_row option" where
  "comment_map rows = map_of (rev (map (\<lambda>r. (c_comment_type r, r)) rows))"

text \<open>
  \<open>button_callback\<close>: the new state, the answer and the thread started, if any.
  \<open>ts\<close> is the store's \<open>CURRENT_TIMESTAMP\<close> during the call.
\<close>

definition button_callback :: "int \<Rightarrow> string \<Rightarrow> bot \<Rightarrow> bot \<times> answer \<times> task option" where
  "button_callback ts data b =
     (if CHR ''|'' \<notin> set data then (b, Ignored, None)
      else
        (let action = takeWhile (\<lambda>c. c \<noteq> CHR ''|'') data;
             pid = tl (dropWhile (\<lambda>c. c \<noteq> CHR ''|'') data)
         in if action = ''scount'' then
              (case py_int pid of
                 None \<Rightarrow> (b, Ignored, None)
               | Some count \<Rightarrow>
                   (let topic = pending_search_topic (bot_user b);
                        b = b\<lparr>bot_user := (bot_user b)\<lparr>pending_search_topic := None\<rparr>\<rparr>
                    in case topic of
                         None \<Rightarrow> (b, SearchExpired, None)
                       | Some t \<Rightarrow> if t = [] then (b, SearchExpired, None)
                                   else (b, Searching t count, Some (RunSearch t count))))
            else
              (case get_post (bot_db b) pid of
                 None \<Rightarrow> (b, PostNotFound pid, None)
               | Some post \<Rightarrow>
                   (let cmap = comment_map (get_comments_for_post (bot_db b) pid)
                    in if startswith action ''manual_'' then
                         (let tone = remove_all ''manual_'' action
                          in case cmap tone of
                               None \<Rightarrow> (b, NoCommentFound tone, None)
                             | Some row \<Rightarrow>
                                 (let d = fst (insert_approval ts pid (c_id row)
                                                 (''manual_'' @ tone) None (bot_db b));
                                      d = update_post_status pid Approved d;
                                      b = b\<lparr>bot_db := d\<rparr>
                                  in if tone \<in> set TONES
                                     then (b, ManualCopy tone (r_url post) (c_text row), None)
                                     else (b, KeyErrorTone tone, None)))
                       else if startswith action ''auto_'' then
                         (let tone = remove_all ''auto_'' action
                          in case cmap tone of
                               None \<Rightarrow> (b, NoCommentFound tone, None)
                             | Some row \<Rightarrow>
                                 (let (d, approval_id) =
                                        insert_approval ts pid (c_id row) (''auto_'' @ tone) None
                                          (bot_db b);
                                      d = update_post_status pid Approved d;
                                      b = b\<lparr>bot_db := d\<rparr>
                                  in if tone \<in> set TONES
                                     then (b, AutoPosting tone (r_url post) (c_text row),
                                           Some (AutoPost (r_url post) (c_text row) pid
                                                   approval_id tone))
                                     else (b, KeyErrorTone tone, None)))
                       else if action = ''edit'' then
                         (b\<lparr>bot_user := (bot_user b)\<lparr>editing_post_id := Some pid\<rparr>\<rparr>,
                          EditMode (r_url post), None)
                       else if action = ''skip'' then
                         (b\<lparr>bot_db := update_post_status pid Skipped (bot_db b)\<rparr>,
                          SkippedPost (r_url post), None)
                       else if action = ''watch'' then
                         (let h = r_author_handle post
                          in if h = [] then (b, NoHandleFound, None)
                             else
                               (let (file, json_added) = add_to_accounts_json h (accounts_json b);
                                    d = fst (add_to_watchlist h (bot_db b))
                                in (b\<lparr>bot_db := d, accounts_json := file\<rparr>,
                                    Watching h json_added, None)))
                       else (b, Ignored, None)))))"

definition ask_search_count :: "string \<Rightarrow> bot \<Rightarrow> bot \<times> answer \<times> task option" where
  "ask_search_count topic b =
     (b\<lparr>bot_user := (bot_user b)\<lparr>pending_search_topic := Some topic\<rparr>\<rparr>,
      AskSearchCount topic, None)"

text \<open>
  \<open>handle_custom_comment\<close>: a plain text message, either the operator's own comment
  for the post being edited or the topic of an on-demand search.
\<close>

definition handle_custom_comment :: "int \<Rightarrow> string \<Rightarrow> bot \<Rightarrow> bot \<times> answer \<times> task option" where
  "handle_custom_comment ts message b =
     (let editing = (case editing_post_id (bot_user b) of
                       None \<Rightarrow> None
                     | Some pid \<Rightarrow> if pid = [] then None else Some pid)
      in case editing of
           None \<Rightarrow>
             (let topic = py_strip message
              in if topic = [] then (b, Ignored, None) else ask_search_count topic b)
         | Some pid \<Rightarrow>
             (let txt = py_strip message
              in case get_post (bot_db b) pid of
                   None \<Rightarrow> (b, PostNotFound pid, None)
                 | Some post \<Rightarrow>
                     (let (d, cid) = insert_comment ts pid ''custom'' txt [] (bot_db b);
                          d = fst (insert_approval ts pid cid ''custom'' (Some txt) d);
                          d = update_post_status pid Approved d
                      in (b\<lparr>bot_db := d,
                            bot_user := (bot_user b)\<lparr>editing_post_id := None\<rparr>\<rparr>,
                          CustomSaved (r_url post) txt, None))))"

definition cmd_cancel :: "bot \<Rightarrow> bot \<times> answer \<times> task option" where
  "cmd_cancel b = (b\<lparr>bot_user := (bot_user b)\<lparr>editing_post_id := None\<rparr>\<rparr>, Cancelled, None)"

subsection \<open>The auto-post runner\<close>

text \<open>The glyphs of the two notifications, as their UTF-8 bytes.\<close>

definition glyph_check :: string where "glyph_check = [CHR 0xE2, CHR 0x9C, CHR 0x85]"
definition glyph_cross :: string where "glyph_cross = [CHR 0xE2, CHR 0x9D, CHR 0x8C]"
definition glyph_link :: string where "glyph_link = [CHR 0xF0, CHR 0x9F, CHR 0x94, CHR 0x97]"
definition glyph_speech :: string where "glyph_speech = [CHR 0xF0, CHR 0x9F, CHR 0x92, CHR 0xAC]"
definition glyph_dash :: string where "glyph_dash = [CHR 0xE2, CHR 0x80, CHR 0x94]"
definition nl :: string where "nl = [CHR 0x0A]"

definition posted_message :: "string \<Rightarrow> string \<Rightarrow> string \<Rightarrow> string" where
  "posted_message label tweet_url comment =
     glyph_check @ '' <b>Auto-posted! ('' @ label @ '')</b>'' @ nl @ nl
     @ glyph_link @ '' '' @ tweet_url @ nl @ glyph_speech @ '' `'' @ comment @ ''`''"

definition failed_message :: "string \<Rightarrow> string \<Rightarrow> string" where
  "failed_message tweet_url comment =
     glyph_cross @ '' <b>Auto-post failed '' @ glyph_dash @ '' post manually:</b>'' @ nl @ nl
     @ glyph_link @ '' '' @ tweet_url @ nl @ nl
     @ glyph_speech @ '' Copy & paste:'' @ nl @ ''`'' @ comment @ ''`''"

text \<open>
  \<open>_run_auto_post\<close>: \<open>success\<close> is what \<open>auto_post_reply\<close> returned (it catches
  every exception of the dispatch and returns \<open>False\<close>). The result is the store and
  the notification handed to the notifier, or \<open>Inl\<close> the tone whose label is missing
  (the \<open>KeyError\<close> that ends the thread, after the two writes).
\<close>

definition run_auto_post ::
  "int \<Rightarrow> bool \<Rightarrow> string \<Rightarrow> string \<Rightarrow> string \<Rightarrow> nat \<Rightarrow> string \<Rightarrow> database \<Rightarrow>
     database \<times> (string + string)" where
  "run_auto_post ts success tweet_url comment pid approval_id tone db =
     (if success then
        (let db = mark_posted ts approval_id db;
             db = update_post_status pid Posted db
         in case map_of TONE_LABEL tone of
              None \<Rightarrow> (db, Inl tone)
            | Some label \<Rightarrow> (db, Inr (posted_message label tweet_url comment)))
      else (db, Inr (failed_message tweet_url comment)))"

subsection \<open>Sequences of actions\<close>

text \<open>
  Everything that writes the \<open>posts\<close> table while the bot runs: a button press, a text
  message, \<open>/cancel\<close>, the end of an auto-post thread (with the outcome of the
  dispatch), and a post stored by a discovery run or an on-demand search.
\<close>

datatype action =
    Button string
  | Message string
  | Cancel
  | AutoPostEnds bool string string string nat string
  | Store post

fun act :: "int \<Rightarrow> action \<Rightarrow> bot \<Rightarrow> bot" where
  "act ts (Button data) b = fst (button_callback ts data b)"
| "act ts (Message m) b = fst (handle_custom_comment ts m b)"
| "act ts Cancel b = fst (cmd_cancel b)"
| "act ts (AutoPostEnds success tweet_url comment pid approval_id tone) b =
     b\<lparr>bot_db := fst (run_auto_post ts success tweet_url comment pid approval_id tone (bot_db b))\<rparr>"
| "act ts (Store p) b = b\<lparr>bot_db := insert_post ts p (bot_db b)\<rparr>"

text \<open>A sequence of actions, each with the store's clock reading when it happens.\<close>

fun acts :: "(int \<times> action) list \<Rightarrow> bot \<Rightarrow> bot" where
  "acts [] b = b"
| "acts ((ts, a) # rest) b = acts rest (act ts a b)"

definition status_of :: "bot \<Rightarrow> string \<Rightarrow> status option" where
  "status_of b pid = map_option r_status (get_post (bot_db b) pid)"

section \<open>Notions used in the proofs\<close>

text \<open>
  Rounding to nearest on the reals, against which the integer algorithm of
  \<open>round_quot\<close> is checked: \<open>rhe\<close> rounds to the nearest integer (a tie to the even
  one), \<open>normal x e\<close> says that \<open>x\<close> has a 53-bit mantissa at exponent \<open>e\<close>, and \<open>fl x\<close>
  is the double nearest to \<open>x\<close>.
\<close>

definition rhe :: "real \<Rightarrow> int" where
  "rhe y =
     (let f = \<lfloor>y\<rfloor>
      in if y - of_int f < 1 / 2 then f
         else if y - of_int f > 1 / 2 then f + 1
         else if even f then f else f + 1)"

definition normal :: "real \<Rightarrow> int \<Rightarrow> bool" where
  "normal x e = (2 powr (52 + real_of_int e) \<le> x \<and> x < 2 powr (53 + real_of_int e))"

definition nearest :: "real \<Rightarrow> int \<Rightarrow> real" where
  "nearest x e = real_of_int (rhe (x / 2 powr real_of_int e)) * 2 powr real_of_int e"

definition fl :: "real \<Rightarrow> real" where
  "fl x = (if x = 0 then 0
           else if 0 < x then nearest x (\<lfloor>log 2 x\<rfloor> - 52)
           else - nearest (- x) (\<lfloor>log 2 (- x)\<rfloor> - 52))"

text \<open>The two terms of \<open>score_post\<close> that are computed on floats.\<close>

definition float_velocity_term :: "int \<Rightarrow> int \<Rightarrow> int option \<Rightarrow> real" where
  "float_velocity_term now v created =
     (case created of None \<Rightarrow> 0
      | Some t \<Rightarrow>
          if dval (hours_since now t) > 0 then
            (if dval (fdiv (float_of_int v) (hours_since now t)) > 1000 then 4
             else if dval (fdiv (float_of_int v) (hours_since now t)) > 500 then 2 else 0)
          else 0)"

definition float_recency_term :: "int \<Rightarrow> int option \<Rightarrow> real" where
  "float_recency_term now created =
     (case created of None \<Rightarrow> 0
      | Some t \<Rightarrow> if dval (hours_since now t) < 3 then 3
                  else if dval (hours_since now t) < 12 then 1 else 0)"

text \<open>
  What the loop of \<open>filter_and_rank_posts\<close> appends for a post it keeps, and the tests
  a post has passed when it is kept (all but the within-run duplicate test).
\<close>

definition candidate :: "(string \<Rightarrow> int) \<Rightarrow> post \<Rightarrow> post" where
  "candidate clock p =
     (case post_id p of
        None \<Rightarrow> p
      | Some pid \<Rightarrow>
          p\<lparr>score := score_post lower (clock pid) p,
            source := Some (case source p of None \<Rightarrow> ''topic_search'' | Some s \<Rightarrow> s)\<rparr>)"

definition passes :: "config \<Rightarrow> string option set \<Rightarrow> int \<Rightarrow> (string \<Rightarrow> int) \<Rightarrow> post \<Rightarrow> bool" where
  "passes cfg seen_db_ids now clock p =
     (case post_id p of
        None \<Rightarrow> False
      | Some pid \<Rightarrow>
          pid \<noteq> [] \<and> Some pid \<notin> seen_db_ids
          \<and> (case created_at p of None \<Rightarrow> True
              | Some t \<Rightarrow> \<not> dval (hours_since now t) > max_post_age_hours cfg)
          \<and> \<not> (views p > 0 \<and> views p < min_views cfg)
          \<and> \<not> (author_followers p > 0 \<and> author_followers p < min_author_followers cfg)
          \<and> score_post lower (clock pid) p \<ge> min_score cfg)"

text \<open>
  The identity of a post as the store sees it, its id and its url: the scraper reads both
  from one link of the tweet card, so among scraped posts the url determines the id
  (\<open>one_link\<close>). \<open>source_posts\<close> is everything the Source returns for the
  keywords and the watched accounts of a run.
\<close>

definition post_key :: "post \<Rightarrow> string option \<times> string" where
  "post_key p = (post_id p, url p)"

definition row_key :: "post_row \<Rightarrow> string option \<times> string" where
  "row_key r = (r_id r, r_url r)"

definition one_link :: "(string option \<times> string) list \<Rightarrow> bool" where
  "one_link ks = (\<forall>(i, u) \<in> set ks. \<forall>(j, v) \<in> set ks. u = v \<longrightarrow> i = j)"

definition scraped :: "(string \<Rightarrow> string + post list) \<Rightarrow> string \<Rightarrow> post list" where
  "scraped scrape k = (case scrape k of Inl e \<Rightarrow> [] | Inr ps \<Rightarrow> ps)"

definition source_posts :: "sources \<Rightarrow> string list \<Rightarrow> account list \<Rightarrow> post list" where
  "source_posts src keywords accounts =
     concat (map (scraped (scrape_keyword src)) keywords)
     @ concat (map (\<lambda>a. scraped (scrape_profile src) (handle a)) accounts)"

text \<open>A post is settled in a store when it has a row there whose status is not \<open>pending\<close>.\<close>

definition settled :: "database \<Rightarrow> string \<Rightarrow> bool" where
  "settled db pid = (case get_post db pid of None \<Rightarrow> False | Some r \<Rightarrow> r_status r \<noteq> Pending)"

text \<open>
  The provider \<open>_call_llm\<close> tries first and the one it falls back to, by the
  configuration, and the answer of a backend to a prompt.
\<close>

definition primary :: "config \<Rightarrow> backend" where
  "primary cfg = (if llm_provider cfg = ''groq'' then Groq else Gemini)"

definition secondary :: "config \<Rightarrow> backend" where
  "secondary cfg = (if llm_provider cfg = ''groq'' then Gemini else Groq)"

definition ask :: "backend \<Rightarrow> provider \<Rightarrow> provider \<Rightarrow> prompt \<Rightarrow> string + string" where
  "ask backend groq gemini prompt = (case backend of Groq \<Rightarrow> groq prompt | Gemini \<Rightarrow> gemini prompt)"

text \<open>
  An account is due when the scheduler does not skip it: it was never checked, or its
  interval has elapsed.
\<close>

definition due :: "int \<Rightarrow> account \<Rightarrow> database \<Rightarrow> bool" where
  "due now acct db =
     (case get_last_check_time db (handle acct) of
        None \<Rightarrow> True
      | Some t \<Rightarrow> \<not> now - t < check_every_hours acct * 3600000000)"

section \<open>Example inputs\<close>

text \<open>
  The raw post of the end-to-end example: id 1, 12000 views, 60000 followers, verified,
  created at instant 0; every other key is missing. One hour later is \<open>hour\<close>.
\<close>

definition hour :: int where
  "hour = 3600000000"

definition raw1 :: post where
  "raw1 = \<lparr>post_id = Some ''1'', url = ''https://x.com/a/status/1'', author_handle = ''a'',
            author_name = '''', author_followers = 60000, author_verified = True,
            post_text = '''', views = 12000, likes = 0, replies = 0, retweets = 0,
            created_at = Some 0, priority_boost = 0, source = None, score = 0,
            top_replies = []\<rparr>"

text \<open>
  A post at a velocity threshold: 1400 views, scored 5040 seconds (1.4 hours) after its
  creation at instant 0, so that the exact velocity is 1000 views an hour.
\<close>

definition tie_now :: int where
  "tie_now = 5040000000"

definition tie_post :: post where
  "tie_post = \<lparr>post_id = Some ''7'', url = ''https://x.com/a/status/7'', author_handle = ''a'',
                author_name = '''', author_followers = 0, author_verified = False,
                post_text = '''', views = 1400, likes = 0, replies = 0, retweets = 0,
                created_at = Some 0, priority_boost = 0, source = None, score = 0,
                top_replies = []\<rparr>"

text \<open>
  The configuration of the source's defaults, and three variants of the raw post: one
  whose view and follower counts are unknown (0), one with 500 views, one without id.
\<close>

definition cfg_default :: config where
  "cfg_default = \<lparr>min_score = 8, min_views = 1000, min_author_followers = 1000,
                   top_n_posts = 10, max_post_age_hours = 24, llm_provider = ''groq''\<rparr>"

definition raw_unknown :: post where
  "raw_unknown = raw1\<lparr>post_id := Some ''2'', url := ''https://x.com/a/status/2'',
                       views := 0, author_followers := 0, likes := 60, replies := 12\<rparr>"

definition raw_low :: post where
  "raw_low = raw1\<lparr>post_id := Some ''3'', url := ''https://x.com/a/status/3'', views := 500\<rparr>"

definition raw_noid :: post where
  "raw_noid = raw1\<lparr>post_id := None\<rparr>"

text \<open>
  Two runs over the same raw discovery output: one keyword whose search returns the raw
  post and its variant with unknown counts, no watched account, both providers down,
  and a configuration that keeps the single best post.
\<close>

definition src1 :: sources where
  "src1 = \<lparr>scrape_keyword = (\<lambda>kw. if kw = ''ai'' then Inr [raw1, raw_unknown] else Inr []),
           scrape_profile = (\<lambda>h. Inl ''timeout''),
           scrape_tweet_replies = (\<lambda>u. Inr [])\<rparr>"

definition down :: provider where
  "down = (\<lambda>prompt. Inl ''unavailable'')"

definition clk1 :: clocks where
  "clk1 = \<lparr>accounts_now = hour, filter_now = hour, score_now = (\<lambda>pid. hour),
           check_ts = (\<lambda>h. hour), store_ts = hour\<rparr>"

definition cfg_top1 :: config where
  "cfg_top1 = cfg_default\<lparr>top_n_posts := 1\<rparr>"

definition first_run :: "database \<times> (post \<times> (string \<times> string \<times> issue list) list) list" where
  "first_run = run_once src1 down down cfg_top1 False [''ai''] [] clk1 empty_db"

definition second_run :: "database \<times> (post \<times> (string \<times> string \<times> issue list) list) list" where
  "second_run = run_once src1 down down cfg_top1 False [''ai''] [] clk1 (fst first_run)"


text \<open>
  A store holding the raw post, pending, with one generated comment of the challenge
  tone; and the bot over that store.
\<close>

definition db_one :: database where
  "db_one = fst (insert_comment hour ''1'' ''challenge'' ''Scaling laws bend.'' [TooShort 18]
                   (insert_post hour raw1 empty_db))"

definition bot_one :: bot where
  "bot_one = \<lparr>bot_db = db_one, accounts_json = Some [],
              bot_user = \<lparr>editing_post_id = None, pending_search_topic = None\<rparr>\<rparr>"


text \<open>The store after the auto button of the challenge tone was pressed.\<close>

definition db_auto :: database where
  "db_auto = bot_db (fst (button_callback hour ''auto_challenge|1'' bot_one))"

text \<open>
  A secondary provider that answers every tone but the question tone, and one that
  answers every tone.
\<close>

definition gemini_but_question :: provider where
  "gemini_but_question =
     (\<lambda>(tone, p). if tone = ''question'' then Inl ''quota'' else Inr ''Agents need memory.'')"

definition gemini_up :: provider where
  "gemini_up = (\<lambda>(tone, p). Inr ''Agents need memory.'')"


text \<open>
  Three watched accounts and a store in which the first was last checked at instant 0;
  the profile of the first has no post, that of the second has one, the scrape of any
  other profile fails.
\<close>

definition karpathy :: account where
  "karpathy = \<lparr>handle = ''karpathy'', priority = ''high'', check_every_hours = 6\<rparr>"

definition lecun :: account where
  "lecun = \<lparr>handle = ''ylecun'', priority = ''medium'', check_every_hours = 6\<rparr>"

definition db_checked :: database where
  "db_checked = update_last_check_time 0 ''karpathy'' empty_db"

definition profiles :: "string \<Rightarrow> string + post list" where
  "profiles h = (if h = ''karpathy'' then Inr [] else if h = ''ylecun'' then Inr [raw_unknown]
                 else Inl ''timeout'')"

definition broken :: account where
  "broken = \<lparr>handle = ''nobody'', priority = ''low'', check_every_hours = 6\<rparr>"


section \<open>Double-precision arithmetic: rounding to nearest\<close>

text \<open>
  The integer algorithm of \<open>round_quot\<close> returns the double nearest to the quotient
  (\<open>round_quot_fl\<close>), so that a float operation is the exact one followed by \<open>fl\<close>,
  which is monotone and has a relative error of at most \<open>2 ^ - 53\<close>.
\<close>

lemma bit_length_bounds:
  "0 < n \<Longrightarrow> 2 ^ (bit_length n - 1) \<le> n \<and> n < 2 ^ bit_length n"
proof (induction n rule: bit_length.induct)
  case (1 n)
  show ?case
  proof (cases "n div 2 = 0")
    case True
    with "1.prems" have "n = 1" by linarith
    then show ?thesis by (simp add: bit_length.simps)
  next
    case False
    then have pos: "0 < n div 2" by simp
    from "1.IH" [OF _ pos] "1.prems"
    have ih: "2 ^ (bit_length (n div 2) - 1) \<le> n div 2" "n div 2 < 2 ^ bit_length (n div 2)"
      by simp_all
    have bl: "bit_length n = Suc (bit_length (n div 2))"
      using "1.prems" by (simp add: bit_length.simps [of n])
    have "0 < bit_length (n div 2)"
      using pos by (simp add: bit_length.simps [of "n div 2"])
    then obtain k where k: "bit_length (n div 2) = Suc k" by (cases "bit_length (n div 2)") auto
    from ih k have "2 ^ k \<le> n div 2" "n div 2 < 2 ^ Suc k"
      by simp_all
    then have "2 * 2 ^ k \<le> n" "n < 2 * 2 ^ Suc k" by linarith+
    then show ?thesis by (simp add: bl k)
  qed
qed

lemma rne_rhe:
  assumes "0 < d"
  shows "rne n d = rhe (real_of_int n / real_of_int d)"
proof -
  have fl: "\<lfloor>real_of_int n / real_of_int d\<rfloor> = n div d"
    by (rule floor_divide_of_int_eq)
  have "real_of_int n = real_of_int (n div d) * real_of_int d + real_of_int (n mod d)"
    by (metis div_mult_mod_eq of_int_add of_int_mult)
  then have frac: "real_of_int n / real_of_int d - real_of_int (n div d)
                     = real_of_int (n mod d) / real_of_int d"
    using assms by (simp add: field_simps)
  have lt: "(real_of_int (n mod d) / real_of_int d < 1 / 2) = (2 * (n mod d) < d)"
    using assms by (simp add: field_simps) linarith
  have gt: "(real_of_int (n mod d) / real_of_int d > 1 / 2) = (2 * (n mod d) > d)"
    using assms by (simp add: field_simps) linarith
  show ?thesis
    unfolding rne_def rhe_def Let_def fl frac lt gt ..
qed

lemma rhe_between: "\<lfloor>y\<rfloor> \<le> rhe y \<and> rhe y \<le> \<lfloor>y\<rfloor> + 1"
  by (simp add: rhe_def Let_def)

lemma rhe_err: "\<bar>real_of_int (rhe y) - y\<bar> \<le> 1 / 2"
proof -
  have "real_of_int \<lfloor>y\<rfloor> \<le> y" "y < real_of_int \<lfloor>y\<rfloor> + 1" by linarith+
  then show ?thesis by (auto simp: rhe_def Let_def)
qed

lemma rhe_ge:
  assumes "real_of_int k \<le> y"
  shows "k \<le> rhe y"
proof -
  from assms have "k \<le> \<lfloor>y\<rfloor>" by (simp add: le_floor_iff)
  with rhe_between [of y] show ?thesis by linarith
qed

lemma rhe_le: "y \<le> real_of_int k \<Longrightarrow> rhe y \<le> k"
proof -
  assume a: "y \<le> real_of_int k"
  show ?thesis
  proof (cases "y = real_of_int k")
    case True
    then show ?thesis by (simp add: rhe_def)
  next
    case False
    with a have "y < real_of_int k" by simp
    then have "\<lfloor>y\<rfloor> < k" by (simp add: floor_less_iff)
    with rhe_between [of y] show ?thesis by linarith
  qed
qed

lemma rhe_mono:
  assumes "y \<le> y'"
  shows "rhe y \<le> rhe y'"
proof (cases "\<lfloor>y\<rfloor> = \<lfloor>y'\<rfloor>")
  case True
  with assms show ?thesis by (auto simp: rhe_def Let_def)
next
  case False
  with assms have "\<lfloor>y\<rfloor> < \<lfloor>y'\<rfloor>" by (meson floor_mono le_less)
  with rhe_between [of y] rhe_between [of y'] show ?thesis by linarith
qed

lemma normal_unique:
  assumes "0 < x" "normal x e"
  shows "e = \<lfloor>log 2 x\<rfloor> - 52"
proof -
  from assms have "52 + real_of_int e \<le> log 2 x" "log 2 x < 53 + real_of_int e"
    by (simp_all add: normal_def le_log_iff log_less_iff)
  then have "\<lfloor>log 2 x\<rfloor> = 52 + e" by (intro floor_unique) simp_all
  then show ?thesis by simp
qed

lemma normal_log:
  assumes "0 < x"
  shows "normal x (\<lfloor>log 2 x\<rfloor> - 52)"
proof -
  have "real_of_int \<lfloor>log 2 x\<rfloor> \<le> log 2 x" "log 2 x < real_of_int \<lfloor>log 2 x\<rfloor> + 1"
    by linarith+
  then have a: "2 powr real_of_int \<lfloor>log 2 x\<rfloor> \<le> x"
    and b: "x < 2 powr (real_of_int \<lfloor>log 2 x\<rfloor> + 1)"
    using assms le_log_iff [of 2 x "real_of_int \<lfloor>log 2 x\<rfloor>"]
      log_less_iff [of 2 x "real_of_int \<lfloor>log 2 x\<rfloor> + 1"]
    by simp_all
  have e: "52 + real_of_int (\<lfloor>log 2 x\<rfloor> - 52) = real_of_int \<lfloor>log 2 x\<rfloor>"
    "53 + real_of_int (\<lfloor>log 2 x\<rfloor> - 52) = real_of_int \<lfloor>log 2 x\<rfloor> + 1"
    by simp_all
  show ?thesis unfolding normal_def e using a b by simp
qed

lemma fl_nearest: "0 < x \<Longrightarrow> normal x e \<Longrightarrow> fl x = nearest x e"
  using normal_unique [of x e] by (simp add: fl_def)

lemma nearest_bounds:
  assumes "normal x e"
  shows "2 powr (52 + real_of_int e) \<le> nearest x e" "nearest x e \<le> 2 powr (53 + real_of_int e)"
proof -
  let ?s = "2 powr real_of_int e"
  have s: "0 < ?s" by simp
  from assms have "2 powr 52 * ?s \<le> x" "x < 2 powr 53 * ?s"
    by (simp_all add: normal_def powr_add)
  with s have "2 powr 52 \<le> x / ?s" "x / ?s \<le> 2 powr 53"
    by (simp_all add: field_simps)
  moreover have "(2::real) powr 52 = real_of_int (2 ^ 52)" "(2::real) powr 53 = real_of_int (2 ^ 53)"
    by simp_all
  ultimately have "real_of_int (2 ^ 52) \<le> x / ?s" "x / ?s \<le> real_of_int (2 ^ 53)"
    by simp_all
  then have "2 ^ 52 \<le> rhe (x / ?s)" "rhe (x / ?s) \<le> 2 ^ 53"
    by (simp_all only: rhe_ge rhe_le)
  then have "real_of_int (2 ^ 52) \<le> real_of_int (rhe (x / ?s))"
    "real_of_int (rhe (x / ?s)) \<le> real_of_int (2 ^ 53)"
    by (simp_all only: of_int_le_iff)
  then have "2 powr 52 * ?s \<le> nearest x e" "nearest x e \<le> 2 powr 53 * ?s"
    using s by (simp_all add: nearest_def)
  then show "2 powr (52 + real_of_int e) \<le> nearest x e"
    "nearest x e \<le> 2 powr (53 + real_of_int e)"
    by (simp_all add: powr_add)
qed

lemma nearest_mono:
  assumes "x \<le> y" "normal x e" "normal y e'"
  shows "nearest x e \<le> nearest y e'"
proof -
  consider "e = e'" | "e < e'" | "e' < e" by linarith
  then show ?thesis
  proof cases
    case 1
    have "x / 2 powr real_of_int e \<le> y / 2 powr real_of_int e"
      using assms(1) by (simp add: divide_right_mono)
    then have "rhe (x / 2 powr real_of_int e) \<le> rhe (y / 2 powr real_of_int e)"
      by (rule rhe_mono)
    then show ?thesis by (simp add: nearest_def 1)
  next
    case 2
    then have "53 + real_of_int e \<le> 52 + real_of_int e'" by simp
    then have "(2::real) powr (53 + real_of_int e) \<le> 2 powr (52 + real_of_int e')"
      by (simp only: powr_le_cancel_iff [of 2] one_less_numeral_iff semiring_norm)
    with nearest_bounds(2) [OF assms(2)] nearest_bounds(1) [OF assms(3)]
    show ?thesis by linarith
  next
    case 3
    then have "53 + real_of_int e' \<le> 52 + real_of_int e" by simp
    then have "(2::real) powr (53 + real_of_int e') \<le> 2 powr (52 + real_of_int e)"
      by (simp only: powr_le_cancel_iff [of 2] one_less_numeral_iff semiring_norm)
    with assms have False by (simp add: normal_def)
    then show ?thesis ..
  qed
qed

lemma nearest_err:
  assumes "normal x e"
  shows "\<bar>nearest x e - x\<bar> \<le> x / 2 ^ 53"
proof -
  let ?s = "2 powr real_of_int e"
  have s: "0 < ?s" by simp
  have "\<bar>real_of_int (rhe (x / ?s)) - x / ?s\<bar> \<le> 1 / 2" by (rule rhe_err)
  then have "\<bar>real_of_int (rhe (x / ?s)) - x / ?s\<bar> * ?s \<le> 1 / 2 * ?s"
    using s by (simp add: mult_right_mono)
  moreover have "\<bar>real_of_int (rhe (x / ?s)) - x / ?s\<bar> * ?s = \<bar>nearest x e - x\<bar>"
  proof -
    have "\<bar>real_of_int (rhe (x / ?s)) - x / ?s\<bar> * ?s
            = \<bar>(real_of_int (rhe (x / ?s)) - x / ?s) * ?s\<bar>"
      using s by (simp add: abs_mult)
    also have "(real_of_int (rhe (x / ?s)) - x / ?s) * ?s = nearest x e - x"
      using s by (simp add: nearest_def field_simps)
    finally show ?thesis .
  qed
  ultimately have a: "\<bar>nearest x e - x\<bar> \<le> ?s / 2" by simp
  from assms have "2 powr 52 * ?s \<le> x" by (simp add: normal_def powr_add)
  then have "?s / 2 \<le> x / 2 ^ 53" by simp
  with a show ?thesis by linarith
qed

lemma nearest_pos: "normal x e \<Longrightarrow> 0 < nearest x e"
proof -
  assume "normal x e"
  from nearest_bounds(1) [OF this] have "2 powr (52 + real_of_int e) \<le> nearest x e" .
  moreover have "(0::real) < 2 powr (52 + real_of_int e)" by simp
  ultimately show ?thesis by linarith
qed

lemma fl_zero: "fl 0 = 0"
  by (simp add: fl_def)

lemma fl_minus: "fl (- x) = - fl x"
  by (simp add: fl_def)

lemma fl_pos: "0 < x \<Longrightarrow> 0 < fl x"
  using nearest_pos [OF normal_log [of x]] by (simp add: fl_def)

lemma fl_pos_iff: "0 < fl x \<longleftrightarrow> 0 < x"
proof (cases "0 < x")
  case True
  then show ?thesis by (simp add: fl_pos)
next
  case False
  show ?thesis
  proof (cases "x = 0")
    case True
    then show ?thesis by (simp add: fl_zero)
  next
    case nz: False
    with False have "0 < - x" by simp
    then have "0 < fl (- x)" by (rule fl_pos)
    with False show ?thesis by (simp add: fl_minus)
  qed
qed

lemma fl_mono_pos:
  assumes "0 < x" "x \<le> y"
  shows "fl x \<le> fl y"
proof -
  from assms have y: "0 < y" by simp
  have "nearest x (\<lfloor>log 2 x\<rfloor> - 52) \<le> nearest y (\<lfloor>log 2 y\<rfloor> - 52)"
    using assms(2) normal_log [OF assms(1)] normal_log [OF y] by (rule nearest_mono)
  with assms(1) y show ?thesis by (simp add: fl_def)
qed

lemma fl_mono:
  assumes "x \<le> y"
  shows "fl x \<le> fl y"
proof -
  consider "0 < x" | "x \<le> 0" "0 \<le> y" | "y < 0" by linarith
  then show ?thesis
  proof cases
    case 1
    then show ?thesis using assms by (rule fl_mono_pos)
  next
    case 2
    have "fl x \<le> 0" using 2(1) fl_pos_iff [of x] by linarith
    moreover have "0 \<le> fl y"
    proof (cases "y = 0")
      case True
      then show ?thesis by (simp add: fl_zero)
    next
      case False
      with 2(2) have "0 < y" by simp
      then show ?thesis using fl_pos [of y] by simp
    qed
    ultimately show ?thesis by linarith
  next
    case 3
    with assms have "0 < - y" "- y \<le> - x" by simp_all
    then have "fl (- y) \<le> fl (- x)" by (rule fl_mono_pos)
    then show ?thesis by (simp add: fl_minus)
  qed
qed

lemma fl_err_pos: "0 < x \<Longrightarrow> \<bar>fl x - x\<bar> \<le> x / 2 ^ 53"
  using nearest_err [OF normal_log [of x]] by (simp add: fl_def)

lemma fl_err: "\<bar>fl x - x\<bar> \<le> \<bar>x\<bar> / 2 ^ 53"
proof -
  consider "0 < x" | "x = 0" | "x < 0" by linarith
  then show ?thesis
  proof cases
    case 1
    with fl_err_pos [of x] show ?thesis by simp
  next
    case 2
    then show ?thesis by (simp add: fl_zero)
  next
    case 3
    then have "0 < - x" by simp
    from fl_err_pos [OF this] have "\<bar>- fl x + x\<bar> \<le> - x / 2 ^ 53" by (simp add: fl_minus)
    moreover have "\<bar>- fl x + x\<bar> = \<bar>fl x - x\<bar>" by linarith
    ultimately show ?thesis using 3 by simp
  qed
qed

lemma dval_powr: "dval (Double m e) = real_of_int m * 2 powr real_of_int e"
  by (simp add: dval_def powr_real_of_int field_simps)

lemma pow2_powr: "0 \<le> k \<Longrightarrow> (2::real) ^ nat k = 2 powr real_of_int k"
  by (simp add: powr_real_of_int)

lemma bit_length_real:
  assumes "0 < a"
  shows "2 powr (real (bit_length (nat a)) - 1) \<le> real_of_int a"
    and "real_of_int a < 2 powr real (bit_length (nat a))"
proof -
  let ?l = "bit_length (nat a)"
  from assms have "0 < nat a" by simp
  from bit_length_bounds [OF this]
  have lo: "2 ^ (?l - 1) \<le> nat a" and hi: "nat a < 2 ^ ?l" by simp_all
  have l: "0 < ?l" using \<open>0 < nat a\<close> by (simp add: bit_length.simps [of "nat a"])
  from lo have "real (2 ^ (?l - 1)) \<le> real (nat a)" by (simp only: of_nat_le_iff)
  then have A: "(2::real) ^ (?l - 1) \<le> real_of_int a" using assms by simp
  have "real (?l - 1) = real ?l - 1" using l by (simp add: of_nat_diff)
  then have "(2::real) powr (real ?l - 1) = 2 powr real (?l - 1)" by simp
  also have "\<dots> = 2 ^ (?l - 1)" by (simp only: powr_realpow zero_less_numeral)
  finally have B: "(2::real) powr (real ?l - 1) = 2 ^ (?l - 1)" .
  show "2 powr (real ?l - 1) \<le> real_of_int a" by (simp only: B A)
  from hi have "real (nat a) < real (2 ^ ?l)" by (simp only: of_nat_less_iff)
  then have "real_of_int a < 2 ^ ?l" using assms by simp
  then show "real_of_int a < 2 powr real ?l" by (simp add: powr_realpow)
qed

lemma round_pos_nearest:
  assumes "0 < a" "0 < b"
  shows "\<exists>e. normal (real_of_int a / real_of_int b) e \<and>
             dval (round_pos a b) = nearest (real_of_int a / real_of_int b) e"
proof -
  define la where "la = bit_length (nat a)"
  define lb where "lb = bit_length (nat b)"
  define e0 :: int where "e0 = int la - int lb - 53"
  define n where "n = (if e0 < 0 then a * 2 ^ nat (- e0) else a)"
  define d where "d = (if e0 < 0 then b else b * 2 ^ nat e0)"
  define q where "q = real_of_int a / real_of_int b"
  define s where "s = 2 powr real_of_int e0"
  have s: "0 < s" by (simp add: s_def)
  have ra: "0 < real_of_int a" and rb: "0 < real_of_int b" using assms by simp_all
  have qpos: "0 < q" using ra rb by (simp add: q_def)
  have rp: "round_pos a b
              = (if n < 2 ^ 53 * d then Double (rne n d) e0 else Double (rne n (2 * d)) (e0 + 1))"
    by (simp add: round_pos_def Let_def la_def lb_def e0_def n_def d_def)
  have dpos: "0 < d" using assms by (simp add: d_def)
  have nd: "real_of_int n / real_of_int d = q / s"
  proof (cases "e0 < 0")
    case True
    then have "(2::real) ^ nat (- e0) = 2 powr real_of_int (- e0)" by (simp add: pow2_powr)
    also have "\<dots> = 1 / s" by (simp add: s_def powr_minus_divide)
    finally have "real_of_int n = real_of_int a * (1 / s)" using True by (simp add: n_def)
    moreover have "d = b" using True by (simp add: d_def)
    ultimately show ?thesis by (simp add: q_def)
  next
    case False
    then have "(2::real) ^ nat e0 = s" by (simp add: s_def pow2_powr)
    then have "real_of_int d = real_of_int b * s" using False by (simp add: d_def)
    moreover have "n = a" using False by (simp add: n_def)
    ultimately show ?thesis by (simp add: q_def)
  qed
  have alo: "2 powr (real la - 1) \<le> real_of_int a" and ahi: "real_of_int a < 2 powr real la"
    unfolding la_def using bit_length_real [OF assms(1)] by simp_all
  have blo: "2 powr (real lb - 1) \<le> real_of_int b" and bhi: "real_of_int b < 2 powr real lb"
    unfolding lb_def using bit_length_real [OF assms(2)] by simp_all
  have e52: "52 + real_of_int e0 = (real la - 1) - real lb"
    and e54: "54 + real_of_int e0 = real la - (real lb - 1)"
    by (simp_all add: e0_def)
  have lo: "2 powr (52 + real_of_int e0) < q"
  proof -
    have "2 powr (52 + real_of_int e0) = 2 powr (real la - 1) / 2 powr real lb"
      by (simp only: e52 powr_diff)
    also have "\<dots> \<le> real_of_int a / 2 powr real lb"
      using alo by (simp add: divide_right_mono)
    also have "\<dots> < real_of_int a / real_of_int b"
      using ra rb bhi by (simp add: divide_strict_left_mono)
    finally show ?thesis by (simp add: q_def)
  qed
  have hi: "q < 2 powr (54 + real_of_int e0)"
  proof -
    have p: "(0::real) < 2 powr (real lb - 1)" by simp
    have "real_of_int a / real_of_int b \<le> real_of_int a / 2 powr (real lb - 1)"
      by (intro frac_le) (use ra p blo in simp_all)
    also have "\<dots> < 2 powr real la / 2 powr (real lb - 1)"
      using ahi p by (simp add: divide_strict_right_mono)
    also have "\<dots> = 2 powr (54 + real_of_int e0)"
      by (simp only: e54 powr_diff)
    finally show ?thesis by (simp add: q_def)
  qed
  show ?thesis
  proof (cases "n < 2 ^ 53 * d")
    case True
    then have "real_of_int n < real_of_int (2 ^ 53 * d)" by (simp only: of_int_less_iff)
    then have "real_of_int n / real_of_int d < 2 ^ 53" using dpos by (simp add: field_simps)
    then have "q < 2 powr 53 * s" using s by (simp add: nd field_simps)
    then have "q < 2 powr (53 + real_of_int e0)" by (simp add: s_def powr_add)
    with lo have nm: "normal q e0" by (simp add: normal_def)
    have "dval (round_pos a b) = real_of_int (rne n d) * s"
      using True by (simp add: rp dval_powr s_def)
    also have "\<dots> = nearest q e0"
      by (simp add: rne_rhe [OF dpos] nd nearest_def s_def)
    finally show ?thesis using nm unfolding q_def by blast
  next
    case False
    then have "real_of_int (2 ^ 53 * d) \<le> real_of_int n" by (simp only: of_int_le_iff not_less)
    then have "2 ^ 53 \<le> real_of_int n / real_of_int d" using dpos by (simp add: field_simps)
    then have "2 powr 53 * s \<le> q" using s by (simp add: nd field_simps)
    moreover have "(2::real) powr (52 + real_of_int (e0 + 1)) = 2 powr 53 * s"
    proof -
      have "52 + real_of_int (e0 + 1) = 53 + real_of_int e0" by simp
      then have "(2::real) powr (52 + real_of_int (e0 + 1)) = 2 powr (53 + real_of_int e0)"
        by (simp only:)
      also have "\<dots> = 2 powr 53 * s" unfolding s_def by (rule powr_add)
      finally show ?thesis .
    qed
    ultimately have "2 powr (52 + real_of_int (e0 + 1)) \<le> q" by (simp only:)
    moreover from hi have "q < 2 powr (53 + real_of_int (e0 + 1))"
      by (simp add: add.commute add.left_commute)
    ultimately have nm: "normal q (e0 + 1)" by (simp only: normal_def)
    have s2: "2 powr real_of_int (e0 + 1) = 2 * s" by (simp add: s_def powr_add)
    have d2: "0 < 2 * d" using dpos by simp
    have "real_of_int n / real_of_int (2 * d) = q / (2 * s)"
      using nd by (simp add: field_simps)
    then have "real_of_int (rne n (2 * d)) = real_of_int (rhe (q / (2 * s)))"
      by (simp add: rne_rhe [OF d2])
    moreover have "dval (round_pos a b) = real_of_int (rne n (2 * d)) * 2 powr real_of_int (e0 + 1)"
      using False by (simp only: rp dval_powr if_False)
    ultimately have "dval (round_pos a b) = nearest q (e0 + 1)"
      by (simp only: nearest_def s2)
    then show ?thesis using nm unfolding q_def by blast
  qed
qed

lemmas float_defs = hours_since_def total_seconds_def fdiv_def float_of_int_def round_quot_def round_pos_def
  rne_def dval_def bit_length.simps Let_def

lemma dval_neg: "dval (Double (- m) e) = - dval (Double m e)"
  by (simp add: dval_def)

lemma dval_zero: "dval (Double 0 e) = 0"
  by (simp add: dval_def)

lemma round_quot_fl:
  assumes "b \<noteq> 0"
  shows "dval (round_quot a b) = fl (real_of_int a / real_of_int b)"
proof (cases "a = 0")
  case True
  then show ?thesis by (simp add: round_quot_def dval_zero fl_zero)
next
  case False
  define r where "r = round_pos \<bar>a\<bar> \<bar>b\<bar>"
  define q where "q = real_of_int \<bar>a\<bar> / real_of_int \<bar>b\<bar>"
  from False assms have pos: "0 < \<bar>a\<bar>" "0 < \<bar>b\<bar>" by simp_all
  then have qpos: "0 < q" by (simp add: q_def)
  from round_pos_nearest [OF pos] obtain e where "normal q e" "dval r = nearest q e"
    unfolding q_def r_def by blast
  then have r: "dval r = fl q" using qpos by (simp add: fl_nearest)
  have rq: "round_quot a b = (if (0 < a) = (0 < b) then r else Double (- mant r) (expo r))"
    using False assms by (simp add: round_quot_def r_def Let_def)
  show ?thesis
  proof (cases "(0 < a) = (0 < b)")
    case True
    with False assms have "real_of_int a / real_of_int b = q"
      by (auto simp: q_def abs_if)
    with True show ?thesis by (simp add: rq r)
  next
    case ne: False
    with False assms have "real_of_int a / real_of_int b = - q"
      by (auto simp: q_def abs_if)
    moreover have "dval (Double (- mant r) (expo r)) = - dval r"
      by (cases r) (simp add: dval_neg)
    ultimately show ?thesis using ne by (simp add: rq r fl_minus)
  qed
qed

lemma float_of_int_fl: "dval (float_of_int v) = fl (real_of_int v)"
  using round_quot_fl [of 1 v] by (simp add: float_of_int_def)

lemma fdiv_fl:
  assumes "mant y \<noteq> 0"
  shows "dval (fdiv x y) = fl (dval x / dval y)"
proof -
  obtain mx ex where x: "x = Double mx ex" by (cases x)
  obtain my ey where y: "y = Double my ey" by (cases y)
  from assms have my: "my \<noteq> 0" by (simp add: y)
  have sx: "(0::real) < 2 powr real_of_int ex" and sy: "(0::real) < 2 powr real_of_int ey"
    by simp_all
  show ?thesis
  proof (cases "ey \<le> ex")
    case True
    then have "(2::real) ^ nat (ex - ey) = 2 powr real_of_int (ex - ey)"
      by (simp add: pow2_powr)
    also have "\<dots> = 2 powr real_of_int ex / 2 powr real_of_int ey"
      by (simp add: powr_diff)
    finally have p: "(2::real) ^ nat (ex - ey) = 2 powr real_of_int ex / 2 powr real_of_int ey" .
    have "dval (fdiv x y) = fl (real_of_int (mx * 2 ^ nat (ex - ey)) / real_of_int my)"
      using True by (simp add: fdiv_def x y round_quot_fl [OF my])
    also have "real_of_int (mx * 2 ^ nat (ex - ey)) / real_of_int my = dval x / dval y"
      using my by (simp add: x y dval_powr p)
    finally show ?thesis .
  next
    case False
    then have "(2::real) ^ nat (ey - ex) = 2 powr real_of_int (ey - ex)"
      by (simp add: pow2_powr)
    also have "\<dots> = 2 powr real_of_int ey / 2 powr real_of_int ex"
      by (simp add: powr_diff)
    finally have p: "(2::real) ^ nat (ey - ex) = 2 powr real_of_int ey / 2 powr real_of_int ex" .
    have nz: "my * 2 ^ nat (ey - ex) \<noteq> 0" using my by simp
    have "dval (fdiv x y) = fl (real_of_int mx / real_of_int (my * 2 ^ nat (ey - ex)))"
      using False by (simp add: fdiv_def x y round_quot_fl [OF nz])
    also have "real_of_int mx / real_of_int (my * 2 ^ nat (ey - ex)) = dval x / dval y"
      using my by (simp add: x y dval_powr p)
    finally show ?thesis .
  qed
qed

lemma float_3600: "float_of_int 3600 = Double 7916483719987200 (- 41)"
  by (simp add: float_defs)

lemma hours_since_fl:
  "dval (hours_since now t) = fl (fl (real_of_int (now - t) / 1000000) / 3600)"
proof -
  have m: "mant (float_of_int 3600) \<noteq> 0" by (simp add: float_3600)
  have v: "dval (float_of_int 3600) = 3600" by (simp add: float_3600 dval_def)
  have "dval (round_quot (now - t) 1000000) = fl (real_of_int (now - t) / 1000000)"
    using round_quot_fl [of 1000000 "now - t"] by simp
  then show ?thesis by (simp add: hours_since_def total_seconds_def fdiv_fl [OF m] v)
qed

lemma hours_since_shift: "hours_since now t = hours_since (now - t) 0"
  by (simp add: hours_since_def)

lemma hours_since_hour: "hours_since now (now - 3600000000) = Double 4503599627370496 (- 52)"
  by (simp add: float_defs)

lemma hours_since_mono:
  assumes "now - t \<le> now' - t'"
  shows "dval (hours_since now t) \<le> dval (hours_since now' t')"
proof -
  from assms have "real_of_int (now - t) / 1000000 \<le> real_of_int (now' - t') / 1000000"
    by simp
  then have "fl (real_of_int (now - t) / 1000000) / 3600
               \<le> fl (real_of_int (now' - t') / 1000000) / 3600"
    by (simp add: fl_mono divide_right_mono)
  then show ?thesis by (simp only: hours_since_fl fl_mono)
qed

lemma hours_since_pos_iff: "0 < dval (hours_since now t) \<longleftrightarrow> t < now"
  by (simp add: hours_since_fl fl_pos_iff)

lemma hours_since_lt_3: "dval (hours_since now t) < 3 \<longleftrightarrow> now - t < 10800000000"
proof
  assume a: "dval (hours_since now t) < 3"
  show "now - t < 10800000000"
  proof (rule ccontr)
    assume "\<not> now - t < 10800000000"
    then have "10800000000 - 0 \<le> now - t" by simp
    from hours_since_mono [OF this] have "dval (hours_since 10800000000 0) \<le> dval (hours_since now t)" .
    moreover have "dval (hours_since 10800000000 0) = 3" by (simp add: float_defs)
    ultimately show False using a by simp
  qed
next
  assume "now - t < 10800000000"
  then have "now - t \<le> 10799999999 - 0" by simp
  from hours_since_mono [OF this] have "dval (hours_since now t) \<le> dval (hours_since 10799999999 0)" .
  moreover have "dval (hours_since 10799999999 0) < 3" by (simp add: float_defs)
  ultimately show "dval (hours_since now t) < 3" by simp
qed

lemma hours_since_lt_12: "dval (hours_since now t) < 12 \<longleftrightarrow> now - t < 43200000000"
proof
  assume a: "dval (hours_since now t) < 12"
  show "now - t < 43200000000"
  proof (rule ccontr)
    assume "\<not> now - t < 43200000000"
    then have "43200000000 - 0 \<le> now - t" by simp
    from hours_since_mono [OF this] have "dval (hours_since 43200000000 0) \<le> dval (hours_since now t)" .
    moreover have "dval (hours_since 43200000000 0) = 12" by (simp add: float_defs)
    ultimately show False using a by simp
  qed
next
  assume "now - t < 43200000000"
  then have "now - t \<le> 43199999999 - 0" by simp
  from hours_since_mono [OF this] have "dval (hours_since now t) \<le> dval (hours_since 43199999999 0)" .
  moreover have "dval (hours_since 43199999999 0) < 12" by (simp add: float_defs)
  ultimately show "dval (hours_since now t) < 12" by simp
qed

lemma fl_lower:
  assumes "0 < x"
  shows "x * (1 - 1 / 2 ^ 53) \<le> fl x"
proof -
  from fl_err_pos [OF assms] have "x - fl x \<le> x / 2 ^ 53" by (simp only: abs_le_iff) simp
  then show ?thesis by (simp add: algebra_simps)
qed

lemma fl_upper:
  assumes "0 < x"
  shows "fl x \<le> x * (1 + 1 / 2 ^ 53)"
proof -
  from fl_err_pos [OF assms] have "fl x - x \<le> x / 2 ^ 53" by (simp only: abs_le_iff)
  then show ?thesis by (simp add: algebra_simps)
qed

lemma fl_nonpos: "x \<le> 0 \<Longrightarrow> fl x \<le> 0"
  using fl_mono [of x 0] by (simp add: fl_zero)

lemma velocity_fl:
  assumes "t < now"
  shows "dval (fdiv (float_of_int v) (hours_since now t))
           = fl (fl (real_of_int v) / dval (hours_since now t))"
proof -
  from assms have "0 < dval (hours_since now t)" by (simp only: hours_since_pos_iff)
  then have "mant (hours_since now t) \<noteq> 0"
    by (cases "hours_since now t") (auto simp: dval_zero)
  from fdiv_fl [OF this] show ?thesis by (simp only: float_of_int_fl)
qed

lemma velocity_bounds:
  fixes v now t :: int
  defines "A \<equiv> 1 - 1 / 2 ^ 53" and "B \<equiv> 1 + 1 / 2 ^ 53"
  defines "w \<equiv> real_of_int v / (real_of_int (now - t) / 3600000000)"
  defines "V \<equiv> dval (fdiv (float_of_int v) (hours_since now t))"
  assumes "t < now" "0 < v"
  shows "w * (A * A / (B * B)) \<le> V" and "V \<le> w * (B * B / (A * A))"
proof -
  have A: "(0::real) < A" and B: "(0::real) < B" by (simp_all add: A_def B_def)
  define x0 where "x0 = real_of_int (now - t) / 1000000"
  define h where "h = x0 / 3600"
  define H where "H = dval (hours_since now t)"
  define F where "F = fl (real_of_int v)"
  have x0: "0 < x0" using assms by (simp add: x0_def)
  have h: "0 < h" using x0 by (simp add: h_def)
  have rv: "0 < real_of_int v" using assms by simp
  have w: "w = real_of_int v / h" by (simp add: w_def h_def x0_def)
  have s_lo: "x0 * A \<le> fl x0" and s_hi: "fl x0 \<le> x0 * B"
    unfolding A_def B_def using x0 by (rule fl_lower, rule fl_upper)
  have s_pos: "0 < fl x0" using x0 by (simp only: fl_pos)
  then have x1: "0 < fl x0 / 3600" by simp
  have HH: "H = fl (fl x0 / 3600)" by (simp only: H_def hours_since_fl x0_def)
  have "h * A * A = (x0 * A / 3600) * A" by (simp add: h_def)
  also have "\<dots> \<le> (fl x0 / 3600) * A"
    using s_lo A by (simp add: divide_right_mono)
  also have "\<dots> \<le> H" unfolding HH A_def using x1 by (rule fl_lower)
  finally have H_lo: "h * A * A \<le> H" .
  have "H \<le> (fl x0 / 3600) * B" unfolding HH B_def using x1 by (rule fl_upper)
  also have "\<dots> \<le> (x0 * B / 3600) * B"
    using s_hi B by (simp add: divide_right_mono)
  also have "\<dots> = h * B * B" by (simp add: h_def)
  finally have H_hi: "H \<le> h * B * B" .
  have hAA: "0 < h * A * A" and hBB: "0 < h * B * B" using h A B by simp_all
  have H_pos: "0 < H" using hAA H_lo by linarith
  have F_lo: "real_of_int v * A \<le> F" and F_hi: "F \<le> real_of_int v * B"
    unfolding A_def B_def F_def using rv by (rule fl_lower, rule fl_upper)
  have vA: "0 \<le> real_of_int v * A" using rv A by simp
  have F_pos: "0 < F" unfolding F_def using rv by (simp only: fl_pos)
  have x2: "0 < F / H" using F_pos H_pos by simp
  have VV: "V = fl (F / H)"
    unfolding V_def F_def H_def using assms(5) by (rule velocity_fl)
  have q_lo: "real_of_int v * A / (h * B * B) \<le> F / H"
    by (intro frac_le) (use vA F_lo H_pos H_hi in simp_all)
  have q_hi: "F / H \<le> real_of_int v * B / (h * A * A)"
    by (intro frac_le) (use F_pos F_hi hAA H_lo in simp_all)
  have "w * (A * A / (B * B)) = (real_of_int v * A / (h * B * B)) * A"
    by (simp add: w)
  also have "\<dots> \<le> (F / H) * A" using q_lo A by (simp only: mult_le_cancel_right_pos)
  also have "\<dots> \<le> V" unfolding VV A_def using x2 by (rule fl_lower)
  finally show "w * (A * A / (B * B)) \<le> V" .
  have "V \<le> (F / H) * B" unfolding VV B_def using x2 by (rule fl_upper)
  also have "\<dots> \<le> (real_of_int v * B / (h * A * A)) * B"
    using q_hi B by (simp only: mult_le_cancel_right_pos)
  also have "\<dots> = w * (B * B / (A * A))" by (simp add: w)
  finally show "V \<le> w * (B * B / (A * A))" .
qed

lemma margin_up:
  "(1::real) < (1 + 1 / 10 ^ 15) * ((1 - 1 / 2 ^ 53) * (1 - 1 / 2 ^ 53) / ((1 + 1 / 2 ^ 53) * (1 + 1 / 2 ^ 53)))"
  by simp

lemma margin_down:
  "(1 - 1 / 10 ^ 15) * ((1 + 1 / 2 ^ 53) * (1 + 1 / 2 ^ 53) / ((1 - 1 / 2 ^ 53) * (1 - 1 / 2 ^ 53))) \<le> (1::real)"
  by simp

lemma velocity_gt:
  fixes v now t :: int and c :: real
  defines "w \<equiv> real_of_int v / (real_of_int (now - t) / 3600000000)"
  assumes "t < now" "0 < c"
    and clear: "w \<le> c * (1 - 1 / 10 ^ 15) \<or> c * (1 + 1 / 10 ^ 15) \<le> w"
  shows "c < dval (fdiv (float_of_int v) (hours_since now t)) \<longleftrightarrow> c < w"
proof -
  define V where "V = dval (fdiv (float_of_int v) (hours_since now t))"
  define A :: real where "A = 1 - 1 / 2 ^ 53"
  define B :: real where "B = 1 + 1 / 2 ^ 53"
  have A: "0 < A" and B: "0 < B" by (simp_all add: A_def B_def)
  have dn: "c * (1 - 1 / 10 ^ 15) < c" and up: "c < c * (1 + 1 / 10 ^ 15)"
    using assms(3) by simp_all
  have "c < V \<longleftrightarrow> c < w"
  proof (cases "0 < v")
    case False
    then have "fl (real_of_int v) \<le> 0" by (simp add: fl_nonpos)
    moreover have "0 < dval (hours_since now t)" using assms(2) by (simp only: hours_since_pos_iff)
    ultimately have "fl (real_of_int v) / dval (hours_since now t) \<le> 0"
      by (simp add: divide_nonpos_pos)
    then have "V \<le> 0" unfolding V_def velocity_fl [OF assms(2)] by (rule fl_nonpos)
    moreover from False assms(2) have "w \<le> 0"
      by (simp add: w_def divide_nonpos_pos)
    ultimately show ?thesis using assms(3) by simp
  next
    case True
    from velocity_bounds [OF assms(2) True]
    have lo: "w * (A * A / (B * B)) \<le> V" and hi: "V \<le> w * (B * B / (A * A))"
      unfolding V_def A_def B_def w_def by simp_all
    have r1: "0 < A * A / (B * B)" and r2: "0 < B * B / (A * A)" using A B by simp_all
    from clear show ?thesis
    proof
      assume a: "w \<le> c * (1 - 1 / 10 ^ 15)"
      then have "w * (B * B / (A * A)) \<le> c * (1 - 1 / 10 ^ 15) * (B * B / (A * A))"
        using r2 by (simp only: mult_le_cancel_right_pos)
      also have "\<dots> = c * ((1 - 1 / 10 ^ 15) * (B * B / (A * A)))" by (simp only: mult.assoc)
      also have "\<dots> \<le> c * 1"
        using assms(3) margin_down unfolding A_def B_def by (simp only: mult_le_cancel_left_pos)
      finally have "w * (B * B / (A * A)) \<le> c" by simp
      with hi have "V \<le> c" by linarith
      moreover from a dn have "w < c" by linarith
      ultimately show ?thesis by simp
    next
      assume a: "c * (1 + 1 / 10 ^ 15) \<le> w"
      have "c * 1 < c * ((1 + 1 / 10 ^ 15) * (A * A / (B * B)))"
        using assms(3) margin_up unfolding A_def B_def by (simp only: mult_less_cancel_left_pos)
      also have "\<dots> = c * (1 + 1 / 10 ^ 15) * (A * A / (B * B))" by (simp only: mult.assoc)
      also have "\<dots> \<le> w * (A * A / (B * B))"
        using a r1 by (simp only: mult_le_cancel_right_pos)
      finally have "c < w * (A * A / (B * B))" by simp
      with lo have "c < V" by linarith
      moreover from a up have "c < w" by linarith
      ultimately show ?thesis by simp
    qed
  qed
  then show ?thesis by (simp only: V_def)
qed


section \<open>Scoring: the formula and its monotonicity\<close>

lemma lower_phrases: "keeps_phrases lower"
  by (simp add: keeps_phrases_def debatable_def comparison_def lower_def lower_char_def)

lemma startswith_prefix: "startswith t s = prefix s t"
  by (induction t s rule: startswith.induct) simp_all

lemma str_in_sublist: "str_in s t = sublist s t"
  by (induction t) (simp_all add: startswith_prefix sublist_Cons_right)

lemma mentions_any_str_in:
  assumes "keeps_phrases L" "set phrases \<subseteq> set (debatable @ comparison)"
  shows "mentions_any L phrases t = list_ex (\<lambda>s. str_in s (L t)) phrases"
proof -
  from assms have "\<And>ph. ph \<in> set phrases \<Longrightarrow> L ph = ph"
    by (auto simp: keeps_phrases_def list_all_iff)
  then show ?thesis by (auto simp: mentions_any_def list_ex_iff str_in_sublist)
qed

lemma score_post_parts:
  "score_post L now p =
     followers_term (author_followers p)
     + views_term (views p)
     + float_velocity_term now (views p) (created_at p)
     + (if author_verified p then 2 else 0)
     + (if likes p > 50 then 2 else 0)
     + (if replies p > 10 then 2 else 0)
     + float_recency_term now (created_at p)
     + real_of_int (priority_boost p)
     + first_mover_term (views p) (replies p)
     + (if list_ex (\<lambda>s. str_in s (L (post_text p))) debatable then 2 else 0)
     + (if list_ex (\<lambda>s. str_in s (L (post_text p))) comparison then 1 else 0)"
  unfolding score_post_def Let_def
  by (simp add: followers_term_def views_term_def float_velocity_term_def
      float_recency_term_def first_mover_term_def split: option.splits)

lemma float_recency_exact:
  "float_recency_term now (created_at p) = recency_term (age_hours now p)"
proof (cases "created_at p")
  case None
  then show ?thesis by (simp add: float_recency_term_def recency_term_def age_hours_def)
next
  case (Some t)
  have "real_of_int (now - t) / 3600000000 < 3 \<longleftrightarrow> real_of_int (now - t) < real_of_int 10800000000"
    by simp
  then have a: "real_of_int (now - t) / 3600000000 < 3 \<longleftrightarrow> now - t < 10800000000"
    by (simp only: of_int_less_iff)
  have "real_of_int (now - t) / 3600000000 < 12 \<longleftrightarrow> real_of_int (now - t) < real_of_int 43200000000"
    by simp
  then have b: "real_of_int (now - t) / 3600000000 < 12 \<longleftrightarrow> now - t < 43200000000"
    by (simp only: of_int_less_iff)
  show ?thesis
    unfolding float_recency_term_def recency_term_def age_hours_def Some option.case
      hours_since_lt_3 hours_since_lt_12 a b ..
qed

lemma float_velocity_exact:
  assumes "off_ties now p"
  shows "float_velocity_term now (views p) (created_at p) = velocity_term (views p) (age_hours now p)"
proof (cases "created_at p")
  case None
  then show ?thesis by (simp add: float_velocity_term_def velocity_term_def age_hours_def)
next
  case (Some t)
  define w where "w = real_of_int (views p) / (real_of_int (now - t) / 3600000000)"
  define V where "V = dval (fdiv (float_of_int (views p)) (hours_since now t))"
  have age: "age_hours now p = Some (real_of_int (now - t) / 3600000000)"
    by (simp add: age_hours_def Some)
  have fv: "float_velocity_term now (views p) (created_at p)
              = (if t < now then (if V > 1000 then 4 else if V > 500 then 2 else 0) else 0)"
    by (simp only: float_velocity_term_def Some option.case hours_since_pos_iff V_def)
  have pos: "0 < real_of_int (now - t) / 3600000000 \<longleftrightarrow> t < now" by simp
  have sv: "velocity_term (views p) (age_hours now p)
              = (if t < now then (if w > 1000 then 4 else if w > 500 then 2 else 0) else 0)"
    by (simp only: velocity_term_def age option.case pos w_def)
  show ?thesis
  proof (cases "t < now")
    case True
    then have "\<not> real_of_int (now - t) / 3600000000 \<le> 0" by simp
    with assms have c: "clear_of 1000 w" "clear_of 500 w"
      by (simp_all add: off_ties_def age w_def)
    from c(1) have "w \<le> 1000 * (1 - 1 / 10 ^ 15) \<or> 1000 * (1 + 1 / 10 ^ 15) \<le> w"
      by (simp only: clear_of_def)
    from velocity_gt [OF True _ this [unfolded w_def]] have k: "1000 < V \<longleftrightarrow> 1000 < w"
      by (simp add: V_def w_def)
    from c(2) have "w \<le> 500 * (1 - 1 / 10 ^ 15) \<or> 500 * (1 + 1 / 10 ^ 15) \<le> w"
      by (simp only: clear_of_def)
    from velocity_gt [OF True _ this [unfolded w_def]] have h: "500 < V \<longleftrightarrow> 500 < w"
      by (simp add: V_def w_def)
    show ?thesis by (simp only: fv sv k h)
  next
    case False
    then show ?thesis by (simp only: fv sv if_False)
  qed
qed

lemma float_velocity_term_nonneg: "0 \<le> float_velocity_term now v created"
  by (simp add: float_velocity_term_def split: option.splits)

lemma score_post_tie: "score_post lower tie_now tie_post = 9"
  by (simp add: score_post_def tie_now_def tie_post_def float_defs lower_def debatable_def
      comparison_def)

lemma spec_score_tie: "spec_score lower tie_now tie_post = 7"
  by (simp add: spec_score_def tie_now_def tie_post_def followers_term_def views_term_def
      velocity_term_def recency_term_def first_mover_term_def age_hours_def mentions_any_def
      lower_def debatable_def comparison_def)

text \<open>
  C3, as the specification states it, fails at a velocity threshold. The post
  \<open>tie_post\<close> has 1400 views and is scored 1.4 hours after its creation: its exact
  velocity is 1000 views an hour, which is not above 1000, so the formula gives
  2 (views) + 0 (velocity) + 3 (recency) = 7. The source computes the age as the float
  nearest to 1.4, which lies below it, and the quotient as 1000.0000000000001: the
  velocity bonus of 4 is added and \<open>score_post\<close> returns 9.
\<close>

theorem score_post_tie_counterexample:
  "score_post lower tie_now tie_post = 9 \<and> spec_score lower tie_now tie_post = 7 \<and>
   real_of_int (views tie_post) / (real_of_int (tie_now - 0) / 3600000000) = 1000 \<and>
   created_at tie_post = Some 0"
  by (simp add: score_post_tie spec_score_tie) (simp add: tie_now_def tie_post_def)

text \<open>
  C3, amended. For every post record and every clock reading at which the exact velocity
  of the post is not within one part in \<open>10 ^ 15\<close> of a velocity threshold
  (\<open>off_ties\<close>), \<open>score_post\<close> returns the sum of the terms of the specification's
  formula, computed exactly (follower and view tiers, velocity and recency only when the
  creation time is known, the verified, likes and replies bonuses, the priority boost as
  it is, the first-mover bonus and the two phrase bonuses, each once, every threshold
  strict); \<open>str.lower\<close> is any function that leaves the phrases of the two tables as
  they are. The age thresholds of 3 and 12 hours are decided exactly by the floats. In
  particular a post with 12000 views and 60000 followers by a verified author, created
  one hour before it is scored, scores at least 15 (its priority boost being one the
  scheduler assigns, so not negative).
\<close>

theorem score_post_formula_off_ties:
  "(keeps_phrases L \<and> off_ties now p \<longrightarrow> score_post L now p = spec_score L now p) \<and>
   (views p = 12000 \<and> author_followers p = 60000 \<and> author_verified p \<and>
    created_at p = Some (now - 3600000000) \<and> 0 \<le> priority_boost p
      \<longrightarrow> 15 \<le> score_post L now p)"
proof (intro conjI impI)
  assume h: "keeps_phrases L \<and> off_ties now p"
  then have d: "mentions_any L debatable (post_text p)
                  = list_ex (\<lambda>s. str_in s (L (post_text p))) debatable"
    by (intro mentions_any_str_in) simp_all
  from h have c: "mentions_any L comparison (post_text p)
                  = list_ex (\<lambda>s. str_in s (L (post_text p))) comparison"
    by (intro mentions_any_str_in) simp_all
  from h have v: "float_velocity_term now (views p) (created_at p)
                    = velocity_term (views p) (age_hours now p)"
    by (intro float_velocity_exact) simp
  show "score_post L now p = spec_score L now p"
    by (simp only: score_post_parts spec_score_def d c v float_recency_exact)
next
  assume h: "views p = 12000 \<and> author_followers p = 60000 \<and> author_verified p \<and>
    created_at p = Some (now - 3600000000) \<and> 0 \<le> priority_boost p"
  then have "0 \<le> real_of_int (priority_boost p)" by simp
  moreover from h have "float_recency_term now (created_at p) = 3"
    by (simp add: float_recency_term_def hours_since_hour dval_def)
  moreover have "0 \<le> float_velocity_term now (views p) (created_at p)"
    by (rule float_velocity_term_nonneg)
  ultimately show "15 \<le> score_post L now p"
    using h by (simp add: score_post_parts followers_term_def views_term_def first_mover_term_def)
qed

theorem score_post_formula_off_ties_witness:
  "keeps_phrases lower \<and> off_ties hour raw1 \<and>
   views raw1 = 12000 \<and> author_followers raw1 = 60000 \<and> author_verified raw1 \<and>
   created_at raw1 = Some (hour - 3600000000) \<and> 0 \<le> priority_boost raw1 \<and>
   score_post lower hour raw1 = spec_score lower hour raw1 \<and> 15 \<le> score_post lower hour raw1"
proof -
  have o: "off_ties hour raw1"
    by (simp add: off_ties_def age_hours_def clear_of_def raw1_def hour_def)
  have r: "views raw1 = 12000 \<and> author_followers raw1 = 60000 \<and> author_verified raw1 \<and>
           created_at raw1 = Some (hour - 3600000000) \<and> 0 \<le> priority_boost raw1"
    by (simp add: raw1_def hour_def)
  from score_post_formula_off_ties [of lower hour raw1] lower_phrases o r
  show ?thesis by simp
qed

lemma followers_term_mono: "f \<le> f' \<Longrightarrow> followers_term f \<le> followers_term f'"
  by (simp add: followers_term_def)

lemma views_term_mono: "v \<le> v' \<Longrightarrow> views_term v \<le> views_term v'"
  by (simp add: views_term_def)

lemma first_mover_term_mono: "v \<le> v' \<Longrightarrow> first_mover_term v r \<le> first_mover_term v' r"
  by (simp add: first_mover_term_def)

lemma float_velocity_term_mono:
  assumes "v \<le> v'"
  shows "float_velocity_term now v created \<le> float_velocity_term now v' created"
proof (cases created)
  case None
  then show ?thesis by (simp add: float_velocity_term_def)
next
  case (Some t)
  show ?thesis
  proof (cases "t < now")
    case True
    then have pos: "0 < dval (hours_since now t)" by (simp only: hours_since_pos_iff)
    from assms have "fl (real_of_int v) \<le> fl (real_of_int v')" by (simp add: fl_mono)
    with pos have "fl (real_of_int v) / dval (hours_since now t)
                     \<le> fl (real_of_int v') / dval (hours_since now t)"
      by (simp add: divide_right_mono)
    then have "dval (fdiv (float_of_int v) (hours_since now t))
                 \<le> dval (fdiv (float_of_int v') (hours_since now t))"
      by (simp only: velocity_fl [OF True] fl_mono)
    then show ?thesis using Some by (simp add: float_velocity_term_def)
  next
    case False
    then have "\<not> 0 < dval (hours_since now t)" by (simp add: hours_since_pos_iff)
    then show ?thesis using Some by (simp add: float_velocity_term_def)
  qed
qed

text \<open>
  C7. \<open>score_post\<close> is monotone in \<open>views\<close>: raising the view count of a post,
  every other field and the clock reading fixed, never lowers the score. The same holds
  for \<open>author_followers\<close>. The velocity is the float the source computes: conversion
  and division round monotonically.
\<close>

theorem score_post_monotone:
  "(v \<le> v' \<longrightarrow>
      score_post L now (p\<lparr>views := v\<rparr>) \<le> score_post L now (p\<lparr>views := v'\<rparr>)) \<and>
   (f \<le> f' \<longrightarrow>
      score_post L now (p\<lparr>author_followers := f\<rparr>)
        \<le> score_post L now (p\<lparr>author_followers := f'\<rparr>))"
proof (intro conjI impI)
  assume le: "v \<le> v'"
  have "views_term v + float_velocity_term now v (created_at p) + first_mover_term v (replies p)
        \<le> views_term v' + float_velocity_term now v' (created_at p)
            + first_mover_term v' (replies p)"
    by (intro add_mono views_term_mono float_velocity_term_mono first_mover_term_mono le)
  then show "score_post L now (p\<lparr>views := v\<rparr>) \<le> score_post L now (p\<lparr>views := v'\<rparr>)"
    by (simp add: score_post_parts)
next
  assume le: "f \<le> f'"
  from followers_term_mono [OF le]
  show "score_post L now (p\<lparr>author_followers := f\<rparr>)
          \<le> score_post L now (p\<lparr>author_followers := f'\<rparr>)"
    by (simp add: score_post_parts)
qed

theorem score_post_monotone_witness:
  "(900 :: int) \<le> 12000 \<and>
   score_post lower hour (raw1\<lparr>views := 900\<rparr>) \<le> score_post lower hour (raw1\<lparr>views := 12000\<rparr>) \<and>
   score_post lower hour (raw1\<lparr>author_followers := 900\<rparr>)
     \<le> score_post lower hour (raw1\<lparr>author_followers := 12000\<rparr>)"
  using score_post_monotone [of 900 12000 lower hour raw1 900 12000] by simp

section \<open>Filtering: what the ranked output can contain\<close>

lemma filter_loop_subset:
  "set (filter_loop cfg sdb now clock ps seen cands)
     \<subseteq> set cands \<union> candidate clock ` {p \<in> set ps. passes cfg sdb now clock p}"
proof (induction ps arbitrary: seen cands)
  case Nil
  then show ?case by simp
next
  case (Cons p ps)
  let ?kept = "candidate clock ` {q \<in> set (p # ps). passes cfg sdb now clock q}"
  show ?case
  proof (cases "post_id p")
    case None
    then show ?thesis using Cons.IH [of seen cands] by auto
  next
    case (Some pid)
    have a: "set (filter_loop cfg sdb now clock ps seen cands) \<subseteq> set cands \<union> ?kept"
      using Cons.IH [of seen cands] by auto
    have b: "set (filter_loop cfg sdb now clock ps (insert pid seen) cands) \<subseteq> set cands \<union> ?kept"
      using Cons.IH [of "insert pid seen" cands] by auto
    have c: "passes cfg sdb now clock p \<Longrightarrow>
       set (filter_loop cfg sdb now clock ps (insert pid seen) (cands @ [candidate clock p]))
         \<subseteq> set cands \<union> ?kept"
      using Cons.IH [of "insert pid seen" "cands @ [candidate clock p]"] by auto
    show ?thesis
      using Some a b c
      by (simp add: Let_def passes_def candidate_def split: option.splits)
  qed
qed

lemma set_py_take: "set (py_take n xs) \<subseteq> set xs"
  by (auto simp: py_take_def dest: in_set_takeD)

lemma set_filter_and_rank:
  "set (filter_and_rank_posts cfg sdb now clock ps)
     \<subseteq> candidate clock ` {p \<in> set ps. passes cfg sdb now clock p}"
proof -
  have "set (filter_and_rank_posts cfg sdb now clock ps)
          \<subseteq> set (filter_loop cfg sdb now clock ps {} [])"
    using set_py_take by (fastforce simp: filter_and_rank_posts_def Let_def)
  also have "\<dots> \<subseteq> set [] \<union> candidate clock ` {p \<in> set ps. passes cfg sdb now clock p}"
    by (rule filter_loop_subset)
  finally show ?thesis by simp
qed

lemma candidate_fields:
  "post_id (candidate clock p) = post_id p"
  "views (candidate clock p) = views p"
  "author_followers (candidate clock p) = author_followers p"
  "url (candidate clock p) = url p"
  by (simp_all add: candidate_def split: option.splits)

lemma filter_loop_no_id:
  "filter_loop cfg sdb now clock (filter (\<lambda>p. post_id p \<notin> {None, Some []}) ps) seen cands
     = filter_loop cfg sdb now clock ps seen cands"
  by (induction ps arbitrary: seen cands) (auto simp: Let_def split: option.splits)

lemma filter_loop_min_views:
  "\<forall>p \<in> set ps. views p = 0 \<Longrightarrow>
   filter_loop (cfg\<lparr>min_views := m\<rparr>) sdb now clock ps seen cands
     = filter_loop cfg sdb now clock ps seen cands"
  by (induction ps arbitrary: seen cands) (auto simp: Let_def split: option.splits)

lemma filter_loop_min_followers:
  "\<forall>p \<in> set ps. author_followers p = 0 \<Longrightarrow>
   filter_loop (cfg\<lparr>min_author_followers := m\<rparr>) sdb now clock ps seen cands
     = filter_loop cfg sdb now clock ps seen cands"
  by (induction ps arbitrary: seen cands) (auto simp: Let_def split: option.splits)

lemmas example_defs =
  raw_low_def raw_noid_def raw_unknown_def raw1_def cfg_default_def hour_def float_defs
  score_post_def lower_def debatable_def comparison_def

lemma rank_examples:
  "filter_and_rank_posts cfg_default {} hour (\<lambda>_. hour) [raw_low, raw_noid, raw_unknown]
     = [raw_unknown\<lparr>score := 9, source := Some ''topic_search''\<rparr>]"
  by (simp add: filter_and_rank_posts_def Let_def py_take_def example_defs)

text \<open>
  C8. The minimum-views and minimum-followers filters apply only to a count above zero.
  No post of the ranked output has a positive view count below \<open>min_views\<close> or a
  positive follower count below \<open>min_author_followers\<close>; so under \<open>min_views = 1000\<close>
  no post with 500 views is among the candidates. A view count of 0 is read as unknown and
  the views threshold does not exclude it: on a batch whose view counts are all 0 the
  output is the same whatever \<open>min_views\<close> is. Likewise for the follower count.
\<close>

theorem min_thresholds_skip_zero:
  "(\<forall>p \<in> set (filter_and_rank_posts cfg sdb now clock ps).
      \<not> (0 < views p \<and> views p < min_views cfg) \<and>
      \<not> (0 < author_followers p \<and> author_followers p < min_author_followers cfg)) \<and>
   (min_views cfg = 1000 \<longrightarrow>
      (\<forall>p \<in> set (filter_and_rank_posts cfg sdb now clock ps). views p \<noteq> 500)) \<and>
   ((\<forall>p \<in> set ps. views p = 0) \<longrightarrow>
      filter_and_rank_posts (cfg\<lparr>min_views := m\<rparr>) sdb now clock ps
        = filter_and_rank_posts cfg sdb now clock ps) \<and>
   ((\<forall>p \<in> set ps. author_followers p = 0) \<longrightarrow>
      filter_and_rank_posts (cfg\<lparr>min_author_followers := m\<rparr>) sdb now clock ps
        = filter_and_rank_posts cfg sdb now clock ps)"
proof -
  have kept: "\<not> (0 < views q \<and> views q < min_views cfg) \<and>
      \<not> (0 < author_followers q \<and> author_followers q < min_author_followers cfg)"
    if "q \<in> set (filter_and_rank_posts cfg sdb now clock ps)" for q
  proof -
    from that set_filter_and_rank obtain p
      where "q = candidate clock p" and "passes cfg sdb now clock p" by blast
    then show ?thesis
      by (auto simp: candidate_fields passes_def split: option.splits)
  qed
  have low: "views q \<noteq> 500"
    if "min_views cfg = 1000" and "q \<in> set (filter_and_rank_posts cfg sdb now clock ps)" for q
    using kept [OF that(2)] that(1) by auto
  have zero_views: "filter_and_rank_posts (cfg\<lparr>min_views := m\<rparr>) sdb now clock ps
        = filter_and_rank_posts cfg sdb now clock ps" if "\<forall>p \<in> set ps. views p = 0"
    using that by (simp add: filter_and_rank_posts_def filter_loop_min_views)
  have zero_followers: "filter_and_rank_posts (cfg\<lparr>min_author_followers := m\<rparr>) sdb now clock ps
        = filter_and_rank_posts cfg sdb now clock ps" if "\<forall>p \<in> set ps. author_followers p = 0"
    using that by (simp add: filter_and_rank_posts_def filter_loop_min_followers)
  from kept low zero_views zero_followers show ?thesis by blast
qed

theorem min_thresholds_skip_zero_witness:
  "min_views cfg_default = 1000 \<and> views raw_low = 500 \<and>
   views raw_unknown = 0 \<and> author_followers raw_unknown = 0 \<and>
   filter_and_rank_posts cfg_default {} hour (\<lambda>_. hour) [raw_low, raw_noid, raw_unknown]
     = [raw_unknown\<lparr>score := 9, source := Some ''topic_search''\<rparr>] \<and>
   500 \<notin> views ` set (filter_and_rank_posts cfg_default {} hour (\<lambda>_. hour)
                         [raw_low, raw_noid, raw_unknown]) \<and>
   filter_and_rank_posts (cfg_default\<lparr>min_views := 5000\<rparr>) {} hour (\<lambda>_. hour) [raw_unknown]
     = filter_and_rank_posts cfg_default {} hour (\<lambda>_. hour) [raw_unknown] \<and>
   filter_and_rank_posts (cfg_default\<lparr>min_author_followers := 5000\<rparr>) {} hour (\<lambda>_. hour)
       [raw_unknown]
     = filter_and_rank_posts cfg_default {} hour (\<lambda>_. hour) [raw_unknown]"
  using min_thresholds_skip_zero
          [of cfg_default "{}" hour "\<lambda>_. hour" "[raw_low, raw_noid, raw_unknown]"]
        min_thresholds_skip_zero [of cfg_default "{}" hour "\<lambda>_. hour" "[raw_unknown]" 5000]
        rank_examples
  by (simp add: cfg_default_def raw_low_def raw_unknown_def raw1_def)

text \<open>
  C10. A record whose id is missing, \<open>None\<close> or the empty string is dropped by
  \<open>filter_and_rank_posts\<close> whatever its score: removing such records from the input
  does not change the output, and every post of the output carries a non-empty id.
\<close>

theorem records_without_id_dropped:
  "(\<forall>p \<in> set (filter_and_rank_posts cfg sdb now clock ps).
      \<exists>pid. post_id p = Some pid \<and> pid \<noteq> []) \<and>
   filter_and_rank_posts cfg sdb now clock (filter (\<lambda>p. post_id p \<notin> {None, Some []}) ps)
     = filter_and_rank_posts cfg sdb now clock ps"
proof
  show "\<forall>p \<in> set (filter_and_rank_posts cfg sdb now clock ps).
          \<exists>pid. post_id p = Some pid \<and> pid \<noteq> []"
  proof
    fix q assume "q \<in> set (filter_and_rank_posts cfg sdb now clock ps)"
    with set_filter_and_rank obtain p
      where "q = candidate clock p" and "passes cfg sdb now clock p" by blast
    then show "\<exists>pid. post_id q = Some pid \<and> pid \<noteq> []"
      by (auto simp: candidate_fields passes_def split: option.splits)
  qed
next
  show "filter_and_rank_posts cfg sdb now clock (filter (\<lambda>p. post_id p \<notin> {None, Some []}) ps)
          = filter_and_rank_posts cfg sdb now clock ps"
    by (simp only: filter_and_rank_posts_def filter_loop_no_id)
qed

theorem records_without_id_dropped_witness:
  "post_id raw_noid = None \<and> min_score cfg_default \<le> score_post lower hour raw_noid \<and>
   filter_and_rank_posts cfg_default {} hour (\<lambda>_. hour) [raw_low, raw_noid, raw_unknown]
     = [raw_unknown\<lparr>score := 9, source := Some ''topic_search''\<rparr>] \<and>
   map post_id (filter_and_rank_posts cfg_default {} hour (\<lambda>_. hour)
                  [raw_low, raw_noid, raw_unknown]) = [Some ''2'']"
  using records_without_id_dropped
          [of cfg_default "{}" hour "\<lambda>_. hour" "[raw_low, raw_noid, raw_unknown]"]
        rank_examples
  by (simp add: example_defs)

section \<open>Discovery across runs\<close>

lemma one_link_mono: "one_link ks \<Longrightarrow> set ks' \<subseteq> set ks \<Longrightarrow> one_link ks'"
  unfolding one_link_def by blast

lemma insert_post_posts:
  "posts (insert_post ts p db) = posts db \<or>
   (\<exists>r. posts (insert_post ts p db) = posts db @ [r] \<and> row_key r = post_key p)"
proof (cases "list_ex (\<lambda>r. (r_id r = post_id p \<and> post_id p \<noteq> None) \<or> r_url r = url p) (posts db)")
  case True
  then show ?thesis by (simp add: insert_post_def)
next
  case False
  then have "posts (insert_post ts p db) = posts db @
             [\<lparr>r_id = post_id p, r_url = url p, r_author_handle = author_handle p,
               r_author_name = author_name p, r_author_followers = author_followers p,
               r_author_verified = author_verified p, r_text = post_text p,
               r_views = views p, r_likes = likes p, r_replies = replies p,
               r_retweets = retweets p, r_created_at = created_at p, r_discovered_at = ts,
               r_source = source p, r_score = score p, r_status = Pending\<rparr>]"
    by (simp add: insert_post_def)
  then show ?thesis by (simp add: row_key_def post_key_def)
qed

lemma store_comments_posts: "posts (store_comments ts pid cs db) = posts db"
  by (induction ts pid cs db rule: store_comments.induct) (simp_all add: insert_comment_def Let_def)

lemma one_linkD: "one_link ks \<Longrightarrow> (i, u) \<in> set ks \<Longrightarrow> (j, u) \<in> set ks \<Longrightarrow> i = j"
  unfolding one_link_def by blast

lemma insert_post_stored:
  assumes "one_link (map row_key (posts db) @ [post_key p])"
  shows "post_id p \<in> r_id ` set (posts (insert_post ts p db))"
proof (cases "list_ex (\<lambda>r. (r_id r = post_id p \<and> post_id p \<noteq> None) \<or> r_url r = url p) (posts db)")
  case True
  then obtain r where r: "r \<in> set (posts db)"
    and c: "(r_id r = post_id p \<and> post_id p \<noteq> None) \<or> r_url r = url p"
    unfolding list_ex_iff by blast
  have "r_id r = post_id p" if "r_url r = url p"
  proof (rule one_linkD [OF assms])
    show "(r_id r, url p) \<in> set (map row_key (posts db) @ [post_key p])"
      using r that by (force simp: row_key_def)
    show "(post_id p, url p) \<in> set (map row_key (posts db) @ [post_key p])"
      by (simp add: post_key_def)
  qed
  with c have "r_id r = post_id p" by blast
  with r have "post_id p \<in> r_id ` set (posts db)" by (metis imageI)
  moreover have "insert_post ts p db = db" using True by (simp only: insert_post_def if_True)
  ultimately show ?thesis by simp
next
  case False
  then have "posts (insert_post ts p db) = posts db @
             [\<lparr>r_id = post_id p, r_url = url p, r_author_handle = author_handle p,
               r_author_name = author_name p, r_author_followers = author_followers p,
               r_author_verified = author_verified p, r_text = post_text p,
               r_views = views p, r_likes = likes p, r_replies = replies p,
               r_retweets = retweets p, r_created_at = created_at p, r_discovered_at = ts,
               r_source = source p, r_score = score p, r_status = Pending\<rparr>]"
    by (simp add: insert_post_def)
  then show ?thesis by simp
qed

lemma store_loop_step:
  "store_loop ts cfg groq gemini (p # ps) db out =
     store_loop ts cfg groq gemini ps
       (case post_id p of None \<Rightarrow> insert_post ts p db
        | Some pid \<Rightarrow> store_comments ts pid (generate_comments cfg groq gemini p) (insert_post ts p db))
       (if post_id p = None \<and> list_ex (\<lambda>(tone, txt, issues). txt \<noteq> []) (generate_comments cfg groq gemini p)
        then out else out @ [(p, generate_comments cfg groq gemini p)])"
  by (simp add: Let_def split: option.splits)

lemma store_loop_posts:
  "\<exists>new. posts (fst (store_loop ts cfg groq gemini ps db out)) = posts db @ new
         \<and> row_key ` set new \<subseteq> post_key ` set ps"
proof (induction ps arbitrary: db out)
  case Nil
  then show ?case by simp
next
  case (Cons p ps)
  let ?db = "case post_id p of None \<Rightarrow> insert_post ts p db
        | Some pid \<Rightarrow> store_comments ts pid (generate_comments cfg groq gemini p) (insert_post ts p db)"
  let ?out = "if post_id p = None \<and> list_ex (\<lambda>(tone, txt, issues). txt \<noteq> []) (generate_comments cfg groq gemini p)
        then out else out @ [(p, generate_comments cfg groq gemini p)]"
  have posts_db: "posts ?db = posts (insert_post ts p db)"
    by (simp add: store_comments_posts split: option.splits)
  from Cons.IH [of ?db ?out] obtain new
    where new: "posts (fst (store_loop ts cfg groq gemini ps ?db ?out)) = posts ?db @ new"
      and sub: "row_key ` set new \<subseteq> post_key ` set ps" by blast
  from insert_post_posts [of ts p db] show ?case
  proof
    assume "posts (insert_post ts p db) = posts db"
    with new sub posts_db show ?thesis
      by (simp only: store_loop_step) auto
  next
    assume "\<exists>r. posts (insert_post ts p db) = posts db @ [r] \<and> row_key r = post_key p"
    then obtain r where r: "posts (insert_post ts p db) = posts db @ [r]" "row_key r = post_key p"
      by blast
    have "posts (fst (store_loop ts cfg groq gemini (p # ps) db out)) = posts db @ (r # new)"
      using new posts_db r(1) by (simp only: store_loop_step) simp
    moreover have "row_key ` set (r # new) \<subseteq> post_key ` set (p # ps)"
      using sub r(2) by auto
    ultimately show ?thesis by blast
  qed
qed

lemma store_loop_out:
  "fst ` set (snd (store_loop ts cfg groq gemini ps db out)) \<subseteq> fst ` set out \<union> set ps"
proof (induction ps arbitrary: db out)
  case Nil
  then show ?case by simp
next
  case (Cons p ps)
  show ?case
    unfolding store_loop_step
    by (rule subset_trans [OF Cons.IH]) auto
qed

lemma store_loop_stored:
  assumes "one_link (map row_key (posts db) @ map post_key ps)"
  shows "post_id ` set ps \<subseteq> r_id ` set (posts (fst (store_loop ts cfg groq gemini ps db out)))"
  using assms
proof (induction ps arbitrary: db out)
  case Nil
  then show ?case by simp
next
  case (Cons p ps)
  let ?db = "case post_id p of None \<Rightarrow> insert_post ts p db
        | Some pid \<Rightarrow> store_comments ts pid (generate_comments cfg groq gemini p) (insert_post ts p db)"
  let ?out = "if post_id p = None \<and> list_ex (\<lambda>(tone, txt, issues). txt \<noteq> []) (generate_comments cfg groq gemini p)
        then out else out @ [(p, generate_comments cfg groq gemini p)]"
  have posts_db: "posts ?db = posts (insert_post ts p db)"
    by (simp add: store_comments_posts split: option.splits)
  have "one_link (map row_key (posts db) @ [post_key p])"
    by (rule one_link_mono [OF Cons.prems]) auto
  then have here: "post_id p \<in> r_id ` set (posts ?db)"
    unfolding posts_db by (rule insert_post_stored)
  have "set (map row_key (posts ?db)) \<subseteq> set (map row_key (posts db) @ [post_key p])"
    unfolding posts_db using insert_post_posts [of ts p db] by auto
  then have "one_link (map row_key (posts ?db) @ map post_key ps)"
    by (intro one_link_mono [OF Cons.prems]) auto
  from Cons.IH [OF this, of ?out]
  have rest: "post_id ` set ps \<subseteq> r_id ` set (posts (fst (store_loop ts cfg groq gemini ps ?db ?out)))" .
  from store_loop_posts [of ts cfg groq gemini ps ?db ?out] obtain new
    where "posts (fst (store_loop ts cfg groq gemini ps ?db ?out)) = posts ?db @ new" by blast
  with here have "post_id p \<in> r_id ` set (posts (fst (store_loop ts cfg groq gemini ps ?db ?out)))"
    by auto
  with rest show ?case
    by (simp only: store_loop_step) auto
qed

lemma update_last_check_time_posts: "posts (update_last_check_time t h db) = posts db"
  by (simp add: update_last_check_time_def)

lemma check_account_posts:
  assumes "check_account scrape ts now seen acct db = (db', new, entry)"
  shows "posts db' = posts db \<and> post_key ` set new \<subseteq> post_key ` set (scraped scrape (handle acct))"
proof (cases "case get_last_check_time db (handle acct) of None \<Rightarrow> False
             | Some t \<Rightarrow> now - t < check_every_hours acct * 3600000000")
  case True
  with assms show ?thesis by (simp add: check_account_def Let_def)
next
  case False
  show ?thesis
  proof (cases "scrape (handle acct)")
    case (Inl e)
    with False assms show ?thesis by (simp add: check_account_def Let_def)
  next
    case (Inr ps)
    with False assms have "posts db' = posts db"
      and "new = map (\<lambda>p. p\<lparr>priority_boost := if priority acct = ''high'' then 3
                                                else if priority acct = ''medium'' then 1 else 0,
                               source := Some ''account_monitor''\<rparr>)
                   (filter (\<lambda>p. post_id p \<notin> seen) ps)"
      by (auto simp: check_account_def Let_def update_last_check_time_posts)
    then show ?thesis using Inr by (auto simp: scraped_def post_key_def)
  qed
qed

lemma accounts_loop_posts:
  assumes "accounts_loop scrape ts now seen accts db all logged = (db', all', logged')"
  shows "posts db' = posts db \<and>
         post_key ` set all' \<subseteq> post_key ` set all
            \<union> post_key ` set (concat (map (\<lambda>a. scraped scrape (handle a)) accts))"
  using assms
proof (induction accts arbitrary: db all logged)
  case Nil
  then show ?case by simp
next
  case (Cons a accts)
  obtain db1 new entry where step: "check_account scrape ts now seen a db = (db1, new, entry)"
    by (metis prod_cases3)
  with Cons.prems
  have "accounts_loop scrape ts now seen accts db1 (all @ new) (logged @ [entry]) = (db', all', logged')"
    by simp
  from Cons.IH [OF this] check_account_posts [OF step]
  have "posts db' = posts db"
    and "post_key ` set all' \<subseteq> (post_key ` set all \<union> post_key ` set new)
            \<union> post_key ` set (concat (map (\<lambda>a. scraped scrape (handle a)) accts))"
    and "post_key ` set new \<subseteq> post_key ` set (scraped scrape (handle a))"
    by (simp_all add: image_Un)
  then show ?case by (simp add: image_Un) blast
qed

lemma discover_subset:
  "set (discover_posts_by_topic scrape kws seen) \<subseteq> set (concat (map (scraped scrape) kws))"
  by (auto simp: discover_posts_by_topic_def scraped_def split: sum.splits)

lemma research_replies_key:
  "post_id (research_replies src p) = post_id p"
  "url (research_replies src p) = url p"
  by (simp_all add: research_replies_def split: sum.splits)

lemma run_once_shape:
  "\<exists>db_a top.
     run_once src groq gemini cfg tm kws accts clk db
       = store_loop (store_ts clk) cfg groq gemini top db_a [] \<and>
     posts db_a = posts db \<and>
     (\<forall>p \<in> set top. post_id p \<notin> get_already_seen_ids db) \<and>
     post_key ` set top \<subseteq> post_key ` set (source_posts src kws accts)"
proof -
  define primary where "primary = (if tm then py_take 3 kws else kws)"
  define seen where "seen = get_already_seen_ids db"
  define topic where "topic = discover_posts_by_topic (scrape_keyword src) primary seen"
  define chk where "chk = check_monitored_accounts (scrape_profile src) (check_ts clk)
                            (accounts_now clk) seen accts db"
  define db_a where "db_a = (if \<not> tm then fst chk else db)"
  define acct_posts where "acct_posts = (if \<not> tm then fst (snd chk) else [])"
  define all where "all = topic @ acct_posts"
  define ranked where "ranked = filter_and_rank_posts cfg (get_already_seen_ids db_a)
                                  (filter_now clk) (score_now clk) all"
  define top where "top = (if all = [] \<or> ranked = [] then []
     else map (research_replies src) (py_take 10 (if tm then py_take 1 ranked else ranked)))"
  have run: "run_once src groq gemini cfg tm kws accts clk db
               = store_loop (store_ts clk) cfg groq gemini top db_a []"
    unfolding run_once_def top_def ranked_def all_def acct_posts_def db_a_def chk_def topic_def
      seen_def primary_def
    by (simp add: Let_def split: prod.splits)
  have chk: "posts (fst chk) = posts db \<and>
     post_key ` set (fst (snd chk))
       \<subseteq> post_key ` set (concat (map (\<lambda>a. scraped (scrape_profile src) (handle a)) accts))"
    using accounts_loop_posts [of "scrape_profile src" "check_ts clk" "accounts_now clk" seen
                                  accts db "[]" "[]" "fst chk" "fst (snd chk)" "snd (snd chk)"]
    by (simp add: chk_def check_monitored_accounts_def)
  then have same: "posts db_a = posts db" by (simp add: db_a_def)
  have "set primary \<subseteq> set kws" using set_py_take [of 3 kws] by (auto simp: primary_def)
  then have "set topic \<subseteq> set (concat (map (scraped (scrape_keyword src)) kws))"
    using discover_subset [of "scrape_keyword src" primary seen] by (simp add: topic_def) blast
  then have t: "post_key ` set topic
       \<subseteq> post_key ` set (concat (map (scraped (scrape_keyword src)) kws))"
    by (rule image_mono)
  have a: "post_key ` set acct_posts
       \<subseteq> post_key ` set (concat (map (\<lambda>a. scraped (scrape_profile src) (handle a)) accts))"
    using chk by (cases tm) (simp_all add: acct_posts_def)
  have all: "post_key ` set all \<subseteq> post_key ` set (source_posts src kws accts)"
    unfolding all_def source_posts_def set_append image_Un
    by (rule Un_mono [OF t a])
  have top_sub: "set top \<subseteq> research_replies src ` set ranked"
    using set_py_take [of 10 ranked] set_py_take [of 1 ranked]
          set_py_take [of 10 "py_take 1 ranked"]
    by (auto simp: top_def)
  have ranked: "set ranked \<subseteq> candidate (score_now clk) `
       {p \<in> set all. passes cfg (get_already_seen_ids db_a) (filter_now clk) (score_now clk) p}"
    unfolding ranked_def by (rule set_filter_and_rank)
  have fresh: "post_id q \<notin> get_already_seen_ids db \<and> post_key q \<in> post_key ` set all"
    if "q \<in> set top" for q
  proof -
    from that top_sub ranked obtain p where p: "p \<in> set all"
      "passes cfg (get_already_seen_ids db_a) (filter_now clk) (score_now clk) p"
      "q = research_replies src (candidate (score_now clk) p)" by blast
    have "get_already_seen_ids db_a = get_already_seen_ids db"
      by (simp add: get_already_seen_ids_def same)
    with p(2) have "post_id p \<notin> get_already_seen_ids db"
      by (auto simp: passes_def split: option.splits)
    moreover have "post_key q = post_key p" "post_id q = post_id p"
      using p(3) by (simp_all add: research_replies_key candidate_fields post_key_def)
    ultimately show ?thesis using p(1) by auto
  qed
  with all have "post_key ` set top \<subseteq> post_key ` set (source_posts src kws accts)" by blast
  with run same fresh show ?thesis by blast
qed

lemma score_raw1: "score_post lower hour raw1 = 22"
  by (simp add: example_defs)
lemma score_raw_unknown: "score_post lower hour raw_unknown = 9"
  by (simp add: example_defs)

lemmas run_defs = run_once_def discover_posts_by_topic_def check_monitored_accounts_def
  get_already_seen_ids_def filter_and_rank_posts_def py_take_def research_replies_def
  insert_post_def generate_comments_def generate_tone_def call_llm_def PROMPTS_def
  src1_def down_def clk1_def cfg_top1_def cfg_default_def empty_db_def Let_def

lemma first_run_ids:
  "map r_id (posts (fst first_run)) = [Some ''1''] \<and> map (post_id \<circ> fst) (snd first_run) = [Some ''1'']"
  unfolding first_run_def
  by (simp add: run_defs example_defs)

lemma second_run_ids:
  "map r_id (posts (fst second_run)) = [Some ''1'', Some ''2''] \<and> map (post_id \<circ> fst) (snd second_run) = [Some ''2'']"
  unfolding second_run_def first_run_def
  by (simp add: run_defs example_defs)



text \<open>
  C2, as stated: over the same raw discovery output, the second run yields no new post.
  With \<open>top_n_posts = 1\<close> the first run surfaces and stores post 1 only; the second
  run, over the same output and the store the first one left, surfaces and stores post 2.
\<close>

theorem second_run_new_post_counterexample:
  "map r_id (posts (fst first_run)) = [Some ''1''] \<and>
   map (post_id \<circ> fst) (snd second_run) = [Some ''2''] \<and>
   map r_id (posts (fst second_run)) = [Some ''1'', Some ''2'']"
  using first_run_ids second_run_ids by simp

text \<open>
  C2, amended. No post a run has surfaced is surfaced or stored again by a later run, in
  particular by a second run over the same raw discovery output: every post the first
  run surfaced is in the Dedup Store afterwards (the urls of the store and of the
  scraped posts determining their ids), no post of the second run's output and no row it
  adds to the store has the id of a post the first run surfaced.
\<close>

theorem surfaced_posts_not_repeated:
  assumes link: "one_link (map row_key (posts db) @ map post_key (source_posts src kws accts))"
    and r1: "run_once src groq gemini cfg tm kws accts clk db = (db1, out1)"
    and r2: "run_once src' groq' gemini' cfg' tm' kws' accts' clk' db1 = (db2, out2)"
  shows "(\<forall>(p, c) \<in> set out1. post_id p \<in> get_already_seen_ids db1) \<and>
         (\<forall>(p, c) \<in> set out2. post_id p \<notin> post_id ` fst ` set out1) \<and>
         (\<forall>r \<in> set (drop (length (posts db1)) (posts db2)). r_id r \<notin> post_id ` fst ` set out1)"
proof -
  from run_once_shape [of src groq gemini cfg tm kws accts clk db] r1 obtain db_a top
    where run1: "store_loop (store_ts clk) cfg groq gemini top db_a [] = (db1, out1)"
      and same1: "posts db_a = posts db"
      and keys1: "post_key ` set top \<subseteq> post_key ` set (source_posts src kws accts)"
    by auto
  have "one_link (map row_key (posts db_a) @ map post_key top)"
    by (rule one_link_mono [OF link]) (use same1 keys1 in auto)
  from store_loop_stored [OF this, of "store_ts clk" cfg groq gemini "[]"] run1
  have stored: "post_id ` set top \<subseteq> get_already_seen_ids db1"
    by (simp add: get_already_seen_ids_def)
  from store_loop_out [of "store_ts clk" cfg groq gemini top db_a "[]"] run1
  have out1: "fst ` set out1 \<subseteq> set top" by simp
  with stored have seen1: "post_id ` fst ` set out1 \<subseteq> get_already_seen_ids db1" by blast
  from run_once_shape [of src' groq' gemini' cfg' tm' kws' accts' clk' db1] r2 obtain db_b top2
    where run2: "store_loop (store_ts clk') cfg' groq' gemini' top2 db_b [] = (db2, out2)"
      and same2: "posts db_b = posts db1"
      and fresh2: "\<forall>p \<in> set top2. post_id p \<notin> get_already_seen_ids db1"
    by auto
  from store_loop_out [of "store_ts clk'" cfg' groq' gemini' top2 db_b "[]"] run2
  have out2: "fst ` set out2 \<subseteq> set top2" by simp
  from store_loop_posts [of "store_ts clk'" cfg' groq' gemini' top2 db_b "[]"] run2 same2
  obtain new where new: "posts db2 = posts db1 @ new"
    and keys2: "row_key ` set new \<subseteq> post_key ` set top2" by auto
  have a: "\<forall>(p, c) \<in> set out1. post_id p \<in> get_already_seen_ids db1"
    using seen1 by force
  have b: "\<forall>(p, c) \<in> set out2. post_id p \<notin> post_id ` fst ` set out1"
    using out2 fresh2 seen1 by force
  have c: "r_id r \<notin> post_id ` fst ` set out1"
    if "r \<in> set (drop (length (posts db1)) (posts db2))" for r
  proof -
    from that new have "row_key r \<in> row_key ` set new" by simp
    with keys2 obtain p where "p \<in> set top2" "row_key r = post_key p" by blast
    then have "r_id r \<notin> get_already_seen_ids db1"
      using fresh2 by (auto simp: row_key_def post_key_def)
    with seen1 show ?thesis by blast
  qed
  from a b c show ?thesis by blast
qed

theorem surfaced_posts_not_repeated_witness:
  "one_link (map row_key (posts empty_db) @ map post_key (source_posts src1 [''ai''] [])) \<and>
   map (post_id \<circ> fst) (snd first_run) = [Some ''1''] \<and>
   map (post_id \<circ> fst) (snd second_run) = [Some ''2''] \<and>
   post_id ` fst ` set (snd first_run) \<subseteq> get_already_seen_ids (fst first_run) \<and>
   post_id ` fst ` set (snd second_run) \<inter> post_id ` fst ` set (snd first_run) = {} \<and>
   r_id ` set (drop (length (posts (fst first_run))) (posts (fst second_run)))
     \<inter> post_id ` fst ` set (snd first_run) = {}"
proof -
  have link: "one_link (map row_key (posts empty_db) @ map post_key (source_posts src1 [''ai''] []))"
    by (simp add: one_link_def row_key_def post_key_def source_posts_def scraped_def src1_def
        empty_db_def raw_unknown_def raw1_def)
  have r1: "run_once src1 down down cfg_top1 False [''ai''] [] clk1 empty_db
              = (fst first_run, snd first_run)"
    by (simp add: first_run_def)
  have r2: "run_once src1 down down cfg_top1 False [''ai''] [] clk1 (fst first_run)
              = (fst second_run, snd second_run)"
    by (simp add: second_run_def)
  from surfaced_posts_not_repeated [OF link r1 r2]
  have "post_id ` fst ` set (snd first_run) \<subseteq> get_already_seen_ids (fst first_run)"
    and "post_id ` fst ` set (snd second_run) \<inter> post_id ` fst ` set (snd first_run) = {}"
    and "r_id ` set (drop (length (posts (fst first_run))) (posts (fst second_run)))
           \<inter> post_id ` fst ` set (snd first_run) = {}"
    by (force, force, blast)
  with link first_run_ids second_run_ids show ?thesis by simp
qed

section \<open>The approval state machine\<close>

lemma get_post_cong: "posts d = posts d' \<Longrightarrow> get_post d pid = get_post d' pid"
  by (simp add: get_post_def)

lemma settled_cong: "posts d = posts d' \<Longrightarrow> settled d pid = settled d' pid"
  by (simp add: settled_def get_post_def)

lemma find_status_update:
  "find (\<lambda>r. r_id r = Some pid) (map (\<lambda>r. if r_id r = Some q then r\<lparr>r_status := st\<rparr> else r) rows)
     = map_option (\<lambda>r. if q = pid then r\<lparr>r_status := st\<rparr> else r) (find (\<lambda>r. r_id r = Some pid) rows)"
  by (induction rows) auto

lemma get_post_update:
  "get_post (update_post_status q st db) pid
     = map_option (\<lambda>r. if q = pid then r\<lparr>r_status := st\<rparr> else r) (get_post db pid)"
  by (simp add: get_post_def update_post_status_def find_status_update)

lemma settled_update:
  "st \<noteq> Pending \<Longrightarrow> settled db pid \<Longrightarrow> settled (update_post_status q st db) pid"
  by (auto simp: settled_def get_post_update split: option.splits)

lemma find_append_Some: "find P xs = Some x \<Longrightarrow> find P (xs @ ys) = Some x"
  by (induction xs) (auto split: if_splits)

lemma get_post_insert:
  "get_post db pid = Some r \<Longrightarrow> get_post (insert_post ts p db) pid = Some r"
  by (simp add: get_post_def insert_post_def find_append_Some)

lemma settled_insert: "settled db pid \<Longrightarrow> settled (insert_post ts p db) pid"
  by (auto simp: settled_def get_post_insert split: option.splits)

lemma posts_kept:
  "posts (fst (insert_approval ts pid cid opt custom db)) = posts db"
  "posts (fst (insert_comment ts pid tone txt issues db)) = posts db"
  "posts (mark_posted ts aid db) = posts db"
  "posts (fst (add_to_watchlist h db)) = posts db"
  by (simp_all add: insert_approval_def insert_comment_def mark_posted_def add_to_watchlist_def Let_def)

lemma button_callback_posts:
  "posts (bot_db (fst (button_callback ts data b))) = posts (bot_db b) \<or>
   (\<exists>q st. st \<noteq> Pending \<and>
      posts (bot_db (fst (button_callback ts data b))) = posts (update_post_status q st (bot_db b)))"
proof -
  have upd: "posts (update_post_status q st d) = posts (update_post_status q st d')"
    if "posts d = posts d'" for q st d d'
    using that by (simp add: update_post_status_def)
  have appr: "posts (update_post_status q st (fst (insert_approval ts pid cid opt custom db)))
                = posts (update_post_status q st db)" for q st pid cid opt custom db
    by (rule upd) (rule posts_kept)
  show ?thesis
    unfolding button_callback_def Let_def case_prod_beta
    by (auto simp: appr posts_kept split: option.splits)
qed

lemmas bot_defs = button_callback_def handle_custom_comment_def cmd_cancel_def run_auto_post_def
  get_post_def get_comments_for_post_def comment_map_def insert_approval_def
  update_post_status_def mark_posted_def insert_comment_def insert_post_def add_to_watchlist_def
  add_to_accounts_json_def status_of_def TONES_def TONE_LABEL_def Let_def
  bot_one_def db_one_def empty_db_def raw1_def

lemma ex_pending: "status_of bot_one ''1'' = Some Pending"
  by (simp add: bot_defs)

lemma ex_skip: "status_of (acts [(hour, Button ''skip|1'')] bot_one) ''1'' = Some Skipped"
  by (simp add: bot_defs)

lemma ex_skip_manual:
  "status_of (acts [(hour, Button ''skip|1''), (hour, Button ''manual_challenge|1'')] bot_one) ''1''
     = Some Approved"
  by (simp add: bot_defs)

lemma ex_skip_auto:
  "button_callback hour ''auto_challenge|1'' (acts [(hour, Button ''skip|1'')] bot_one)
     = (acts [(hour, Button ''skip|1''), (hour, Button ''auto_challenge|1'')] bot_one,
        AutoPosting ''challenge'' ''https://x.com/a/status/1'' ''Scaling laws bend.'',
        Some (AutoPost ''https://x.com/a/status/1'' ''Scaling laws bend.'' ''1'' 1 ''challenge''))"
  by (simp add: bot_defs)

lemma ex_skip_auto_posted:
  "status_of (acts [(hour, Button ''skip|1''), (hour, Button ''auto_challenge|1''),
        (hour, AutoPostEnds True ''https://x.com/a/status/1'' ''Scaling laws bend.'' ''1'' 1 ''challenge'')]
        bot_one) ''1'' = Some Posted"
  by (simp add: bot_defs)


lemma settled_button:
  assumes "settled (bot_db b) pid"
  shows "settled (bot_db (fst (button_callback ts data b))) pid"
  using button_callback_posts [of ts data b]
proof
  assume "posts (bot_db (fst (button_callback ts data b))) = posts (bot_db b)"
  from settled_cong [OF this] assms show ?thesis by simp
next
  assume "\<exists>q st. st \<noteq> Pending \<and>
      posts (bot_db (fst (button_callback ts data b))) = posts (update_post_status q st (bot_db b))"
  then obtain q st where st: "st \<noteq> Pending"
    and eq: "posts (bot_db (fst (button_callback ts data b)))
               = posts (update_post_status q st (bot_db b))"
    by blast
  from st assms have "settled (update_post_status q st (bot_db b)) pid"
    by (rule settled_update)
  then show ?thesis by (simp only: settled_cong [OF eq])
qed

lemma settled_custom:
  assumes "settled (bot_db b) pid"
  shows "settled (bot_db (fst (handle_custom_comment ts m b))) pid"
proof -
  have "posts (update_post_status q Approved
                 (fst (insert_approval ts q cid opt custom (fst (insert_comment ts q tone body issues d)))))
          = posts (update_post_status q Approved d)" for q cid opt custom tone body issues d
    by (simp add: update_post_status_def posts_kept)
  then have "posts (bot_db (fst (handle_custom_comment ts m b))) = posts (bot_db b) \<or>
    (\<exists>q. posts (bot_db (fst (handle_custom_comment ts m b)))
            = posts (update_post_status q Approved (bot_db b)))"
    unfolding handle_custom_comment_def ask_search_count_def Let_def case_prod_beta
    by (auto split: option.splits)
  then show ?thesis
  proof
    assume "posts (bot_db (fst (handle_custom_comment ts m b))) = posts (bot_db b)"
    from settled_cong [OF this] assms show ?thesis by simp
  next
    assume "\<exists>q. posts (bot_db (fst (handle_custom_comment ts m b)))
            = posts (update_post_status q Approved (bot_db b))"
    then obtain q where eq: "posts (bot_db (fst (handle_custom_comment ts m b)))
            = posts (update_post_status q Approved (bot_db b))" by blast
    have "settled (update_post_status q Approved (bot_db b)) pid"
      using assms by (simp add: settled_update)
    then show ?thesis by (simp only: settled_cong [OF eq])
  qed
qed

lemma settled_auto_post:
  assumes "settled db pid"
  shows "settled (fst (run_auto_post ts success tweet_url comment q aid tone db)) pid"
proof (cases success)
  case True
  have "settled (mark_posted ts aid db) pid"
    using assms settled_cong [of "mark_posted ts aid db" db pid] by (simp add: posts_kept)
  then have "settled (update_post_status q Posted (mark_posted ts aid db)) pid"
    by (simp add: settled_update)
  with True show ?thesis by (simp add: run_auto_post_def Let_def split: option.splits)
next
  case False
  with assms show ?thesis by (simp add: run_auto_post_def)
qed

lemma settled_act: "settled (bot_db b) pid \<Longrightarrow> settled (bot_db (act ts a b)) pid"
  by (cases a) (simp_all add: settled_button settled_custom settled_auto_post settled_insert
      cmd_cancel_def)

lemma settled_acts: "settled (bot_db b) pid \<Longrightarrow> settled (bot_db (acts as b)) pid"
  by (induction as b rule: acts.induct) (simp_all add: settled_act)

lemma split_token:
  "CHR ''|'' \<notin> set action \<Longrightarrow> takeWhile (\<lambda>c. c \<noteq> CHR ''|'') (action @ CHR ''|'' # pid) = action"
  "CHR ''|'' \<notin> set action \<Longrightarrow> tl (dropWhile (\<lambda>c. c \<noteq> CHR ''|'') (action @ CHR ''|'' # pid)) = pid"
  by (induction action) auto


text \<open>
  C9. A control-channel token whose action is not the search count and whose post id is
  unknown to the store is rejected: the handler answers that the post was not found,
  starts no thread, and leaves the whole state as it was (no post, comment, approval or
  account-check row is written, and neither the watch-list file nor the user data).
\<close>

theorem unknown_post_rejected:
  assumes "CHR ''|'' \<notin> set action" and "action \<noteq> ''scount''"
    and "get_post (bot_db b) pid = None"
  shows "button_callback ts (action @ ''|'' @ pid) b = (b, PostNotFound pid, None)"
  using assms by (simp add: button_callback_def split_token Let_def)

theorem unknown_post_rejected_witness:
  "CHR ''|'' \<notin> set ''skip'' \<and> ''skip'' \<noteq> ''scount'' \<and> get_post (bot_db bot_one) ''404'' = None \<and>
   button_callback hour ''skip|404'' bot_one = (bot_one, PostNotFound ''404'', None)"
  using unknown_post_rejected [of "''skip''" bot_one "''404''" hour]
  by (simp add: bot_defs)

lemma settled_status:
  "settled (bot_db b) pid \<longleftrightarrow> (\<exists>st. status_of b pid = Some st \<and> st \<noteq> Pending)"
  by (auto simp: settled_def status_of_def split: option.splits)

lemma skip_sets_skipped:
  assumes "get_post (bot_db b) pid \<noteq> None"
  shows "status_of (act ts (Button (''skip|'' @ pid)) b) pid = Some Skipped"
proof -
  from assms obtain r where r: "get_post (bot_db b) pid = Some r" by blast
  have "fst (button_callback ts (''skip'' @ CHR ''|'' # pid) b)
          = b\<lparr>bot_db := update_post_status pid Skipped (bot_db b)\<rparr>"
    unfolding button_callback_def by (simp add: split_token r Let_def)
  then show ?thesis by (simp add: status_of_def get_post_update r)
qed

lemma tone_sets_approved:
  assumes "tone \<in> set TONES" "get_post (bot_db b) pid \<noteq> None"
    and "comment_map (get_comments_for_post (bot_db b) pid) tone \<noteq> None"
  shows "status_of (act ts (Button (''manual_'' @ tone @ ''|'' @ pid)) b) pid = Some Approved"
    and "status_of (act ts (Button (''auto_'' @ tone @ ''|'' @ pid)) b) pid = Some Approved"
proof -
  from assms(2) obtain r where r: "get_post (bot_db b) pid = Some r" by blast
  from assms(3) obtain row where row: "comment_map (get_comments_for_post (bot_db b) pid) tone = Some row"
    by blast
  have bar: "CHR ''|'' \<notin> set (''manual_'' @ tone)" "CHR ''|'' \<notin> set (''auto_'' @ tone)"
    using assms(1) by (auto simp: TONES_def)
  have tone: "remove_all ''manual_'' (''manual_'' @ tone) = tone"
    "remove_all ''auto_'' (''auto_'' @ tone) = tone"
    "startswith (''manual_'' @ tone) ''manual_''" "startswith (''auto_'' @ tone) ''auto_''"
    "\<not> startswith (''auto_'' @ tone) ''manual_''"
    "''manual_'' @ tone \<noteq> ''scount''" "''auto_'' @ tone \<noteq> ''scount''"
    using assms(1) by (auto simp: TONES_def)
  have m: "bot_db (fst (button_callback ts ((''manual_'' @ tone) @ CHR ''|'' # pid) b))
          = update_post_status pid Approved
              (fst (insert_approval ts pid (c_id row) (''manual_'' @ tone) None (bot_db b)))"
    unfolding button_callback_def split_token [OF bar(1)] Let_def
    using bar(1) tone r row by simp
  have a: "bot_db (fst (button_callback ts ((''auto_'' @ tone) @ CHR ''|'' # pid) b))
          = update_post_status pid Approved
              (fst (insert_approval ts pid (c_id row) (''auto_'' @ tone) None (bot_db b)))"
    unfolding button_callback_def split_token [OF bar(2)] Let_def case_prod_beta
    using bar(2) tone r row by simp
  have kept: "get_post (fst (insert_approval ts pid cid opt None (bot_db b))) pid = Some r" for cid opt
    using get_post_cong [OF posts_kept(1)] r by simp
  show "status_of (act ts (Button (''manual_'' @ tone @ ''|'' @ pid)) b) pid = Some Approved"
    using m by (simp add: status_of_def get_post_update kept)
  show "status_of (act ts (Button (''auto_'' @ tone @ ''|'' @ pid)) b) pid = Some Approved"
    using a by (simp add: status_of_def get_post_update kept)
qed

text \<open>
  C1, as stated: a post that has reached \<open>skipped\<close> undergoes no further transition,
  and a post reaches \<open>approved\<close> or \<open>skipped\<close> but never both. The handler does
  not read the status: after \<open>skip\<close>, the manual button of a tone that has a stored
  comment moves the post to \<open>approved\<close>, and the auto button followed by a
  successful dispatch moves it to \<open>posted\<close>.
\<close>

theorem skipped_not_terminal_counterexample:
  "status_of bot_one ''1'' = Some Pending \<and>
   status_of (acts [(hour, Button ''skip|1'')] bot_one) ''1'' = Some Skipped \<and>
   status_of (acts [(hour, Button ''skip|1''), (hour, Button ''manual_challenge|1'')] bot_one) ''1''
     = Some Approved \<and>
   status_of (acts [(hour, Button ''skip|1''), (hour, Button ''auto_challenge|1''),
                    (hour, AutoPostEnds True ''https://x.com/a/status/1'' ''Scaling laws bend.''
                             ''1'' 1 ''challenge'')] bot_one) ''1''
     = Some Posted"
  using ex_pending ex_skip ex_skip_manual ex_skip_auto_posted by simp

text \<open>
  C1, amended. No sequence of actions returns a post to \<open>pending\<close>: a post whose
  status is \<open>approved\<close>, \<open>skipped\<close> or \<open>posted\<close> has one of these three after
  any sequence of button presses, messages, cancels, auto-post completions and stored
  discoveries. A transition overwrites the status whatever it was: on a known post,
  \<open>skip\<close> sets \<open>skipped\<close>, and the manual or auto button of a tone with a stored
  comment sets \<open>approved\<close>.
\<close>

theorem status_never_back_to_pending:
  "(status_of b pid = Some st \<and> st \<noteq> Pending \<longrightarrow>
      (\<exists>st'. status_of (acts as b) pid = Some st' \<and> st' \<noteq> Pending)) \<and>
   (get_post (bot_db b) pid \<noteq> None \<longrightarrow>
      status_of (act ts (Button (''skip|'' @ pid)) b) pid = Some Skipped) \<and>
   (tone \<in> set TONES \<and> get_post (bot_db b) pid \<noteq> None \<and>
    comment_map (get_comments_for_post (bot_db b) pid) tone \<noteq> None \<longrightarrow>
      status_of (act ts (Button (''manual_'' @ tone @ ''|'' @ pid)) b) pid = Some Approved \<and>
      status_of (act ts (Button (''auto_'' @ tone @ ''|'' @ pid)) b) pid = Some Approved)"
proof (intro conjI impI)
  assume "status_of b pid = Some st \<and> st \<noteq> Pending"
  then have "settled (bot_db b) pid" by (auto simp: settled_status)
  then have "settled (bot_db (acts as b)) pid" by (rule settled_acts)
  then show "\<exists>st'. status_of (acts as b) pid = Some st' \<and> st' \<noteq> Pending"
    by (simp add: settled_status)
next
  assume "get_post (bot_db b) pid \<noteq> None"
  then show "status_of (act ts (Button (''skip|'' @ pid)) b) pid = Some Skipped"
    by (rule skip_sets_skipped)
next
  assume h: "tone \<in> set TONES \<and> get_post (bot_db b) pid \<noteq> None \<and>
    comment_map (get_comments_for_post (bot_db b) pid) tone \<noteq> None"
  then show "status_of (act ts (Button (''manual_'' @ tone @ ''|'' @ pid)) b) pid = Some Approved"
    by (intro tone_sets_approved) simp_all
  from h show "status_of (act ts (Button (''auto_'' @ tone @ ''|'' @ pid)) b) pid = Some Approved"
    by (intro tone_sets_approved) simp_all
qed

theorem status_never_back_to_pending_witness:
  "status_of (acts [(hour, Button ''skip|1'')] bot_one) ''1'' = Some Skipped \<and> Skipped \<noteq> Pending \<and>
   (\<exists>st'. status_of (acts [(hour, Button ''manual_challenge|1''), (hour, Store raw1)]
                       (acts [(hour, Button ''skip|1'')] bot_one)) ''1'' = Some st' \<and> st' \<noteq> Pending) \<and>
   ''challenge'' \<in> set TONES \<and> get_post (bot_db bot_one) ''1'' \<noteq> None \<and>
   comment_map (get_comments_for_post (bot_db bot_one) ''1'') ''challenge'' \<noteq> None \<and>
   status_of (act hour (Button ''skip|1'') bot_one) ''1'' = Some Skipped \<and>
   status_of (act hour (Button ''manual_challenge|1'') bot_one) ''1'' = Some Approved \<and>
   status_of (act hour (Button ''auto_challenge|1'') bot_one) ''1'' = Some Approved"
proof -
  have a: "status_of (acts [(hour, Button ''skip|1'')] bot_one) ''1'' = Some Skipped \<and> Skipped \<noteq> Pending"
    using ex_skip by simp
  have b: "''challenge'' \<in> set TONES \<and> get_post (bot_db bot_one) ''1'' \<noteq> None \<and>
     comment_map (get_comments_for_post (bot_db bot_one) ''1'') ''challenge'' \<noteq> None"
    by (simp add: bot_defs)
  from status_never_back_to_pending
         [of "acts [(hour, Button ''skip|1'')] bot_one" "''1''" Skipped
             "[(hour, Button ''manual_challenge|1''), (hour, Store raw1)]"]
       status_never_back_to_pending [of bot_one "''1''" _ _ hour "''challenge''"] a b
  show ?thesis by simp
qed

section \<open>The auto-post runner\<close>

lemma startswith_append: "startswith (s @ b) s"
  by (induction s) simp_all

lemma str_in_middle: "str_in s (a @ s @ b)"
proof (induction a)
  case Nil
  show ?case
  proof (cases "s @ b")
    case Nil
    then show ?thesis by simp
  next
    case (Cons c cs)
    with startswith_append [of s b] show ?thesis by simp
  qed
next
  case (Cons c a)
  then show ?case by simp
qed

lemma find_mark_posted:
  "find (\<lambda>a. a_id a = aid) (map (\<lambda>a. if a_id a = aid then a\<lparr>a_posted_at := Some ts\<rparr> else a) xs)
     = map_option (\<lambda>a. a\<lparr>a_posted_at := Some ts\<rparr>) (find (\<lambda>a. a_id a = aid) xs)"
  by (induction xs) auto

text \<open>
  C5. For the dispatch of an approved post: when the dispatch succeeds, the approval's
  \<open>posted_at\<close> is set and the post's status becomes \<open>posted\<close>; when it fails, the
  store is left exactly as it was, so the post stays \<open>approved\<close>, and the notification
  handed to the notifier is the manual-fallback message, which contains the generated
  text literally.
\<close>

theorem auto_post_outcome:
  assumes "get_post db pid = Some r" and "r_status r = Approved"
    and "find (\<lambda>a. a_id a = aid) (approvals db) = Some a"
  shows "(\<exists>r' a'. get_post (fst (run_auto_post ts True tweet_url comment pid aid tone db)) pid
                     = Some r' \<and> r_status r' = Posted \<and>
                   find (\<lambda>a. a_id a = aid)
                     (approvals (fst (run_auto_post ts True tweet_url comment pid aid tone db)))
                     = Some a' \<and> a_posted_at a' = Some ts) \<and>
         run_auto_post ts False tweet_url comment pid aid tone db
           = (db, Inr (failed_message tweet_url comment)) \<and>
         map_option r_status
           (get_post (fst (run_auto_post ts False tweet_url comment pid aid tone db)) pid)
           = Some Approved \<and>
         str_in comment (failed_message tweet_url comment)"
proof (intro conjI)
  have db': "fst (run_auto_post ts True tweet_url comment pid aid tone db)
               = update_post_status pid Posted (mark_posted ts aid db)"
    by (simp add: run_auto_post_def Let_def split: option.splits)
  have "get_post (mark_posted ts aid db) pid = Some r"
    using get_post_cong [OF posts_kept(3)] assms(1) by simp
  then have p: "get_post (update_post_status pid Posted (mark_posted ts aid db)) pid
                  = Some (r\<lparr>r_status := Posted\<rparr>)"
    by (simp add: get_post_update)
  have q: "find (\<lambda>a. a_id a = aid) (approvals (update_post_status pid Posted (mark_posted ts aid db)))
             = Some (a\<lparr>a_posted_at := Some ts\<rparr>)"
    using assms(3) by (simp add: update_post_status_def mark_posted_def find_mark_posted)
  from p q show "\<exists>r' a'. get_post (fst (run_auto_post ts True tweet_url comment pid aid tone db)) pid
                     = Some r' \<and> r_status r' = Posted \<and>
                   find (\<lambda>a. a_id a = aid)
                     (approvals (fst (run_auto_post ts True tweet_url comment pid aid tone db)))
                     = Some a' \<and> a_posted_at a' = Some ts"
    unfolding db' by simp
next
  show "run_auto_post ts False tweet_url comment pid aid tone db
          = (db, Inr (failed_message tweet_url comment))"
    by (simp add: run_auto_post_def)
next
  show "map_option r_status
          (get_post (fst (run_auto_post ts False tweet_url comment pid aid tone db)) pid)
          = Some Approved"
    using assms by (simp add: run_auto_post_def)
next
  have "failed_message tweet_url comment
          = (glyph_cross @ '' <b>Auto-post failed '' @ glyph_dash @ '' post manually:</b>'' @ nl @ nl
             @ glyph_link @ '' '' @ tweet_url @ nl @ nl
             @ glyph_speech @ '' Copy & paste:'' @ nl @ ''`'') @ comment @ ''`''"
    by (simp add: failed_message_def)
  then show "str_in comment (failed_message tweet_url comment)"
    by (simp only: str_in_middle)
qed

theorem auto_post_outcome_witness:
  "map_option r_status (get_post db_auto ''1'') = Some Approved \<and>
   map_option a_posted_at (find (\<lambda>a. a_id a = 1) (approvals db_auto)) = Some None \<and>
   map_option r_status
     (get_post (fst (run_auto_post (2 * hour) True ''https://x.com/a/status/1''
                       ''Scaling laws bend.'' ''1'' 1 ''challenge'' db_auto)) ''1'')
     = Some Posted \<and>
   map_option a_posted_at
     (find (\<lambda>a. a_id a = 1)
        (approvals (fst (run_auto_post (2 * hour) True ''https://x.com/a/status/1''
                           ''Scaling laws bend.'' ''1'' 1 ''challenge'' db_auto))))
     = Some (Some (2 * hour)) \<and>
   run_auto_post (2 * hour) False ''https://x.com/a/status/1'' ''Scaling laws bend.'' ''1'' 1
       ''challenge'' db_auto
     = (db_auto, Inr (failed_message ''https://x.com/a/status/1'' ''Scaling laws bend.'')) \<and>
   str_in ''Scaling laws bend.''
     (failed_message ''https://x.com/a/status/1'' ''Scaling laws bend.'')"
proof -
  have "\<exists>r. get_post db_auto ''1'' = Some r \<and> r_status r = Approved"
    by (simp add: db_auto_def bot_defs)
  then obtain r where r: "get_post db_auto ''1'' = Some r" "r_status r = Approved" by blast
  have "\<exists>a. find (\<lambda>a. a_id a = 1) (approvals db_auto) = Some a \<and> a_posted_at a = None"
    by (simp add: db_auto_def bot_defs)
  then obtain a where a: "find (\<lambda>a. a_id a = 1) (approvals db_auto) = Some a" "a_posted_at a = None"
    by blast
  from auto_post_outcome [OF r a(1), of "2 * hour" "''https://x.com/a/status/1''"
                             "''Scaling laws bend.''" "''challenge''"] r a
  show ?thesis by auto
qed

section \<open>Comment generation: fallback and independence of the tones\<close>

lemma call_llm_primary_fails:
  "ask (primary cfg) groq gemini prompt = Inl e \<Longrightarrow>
   call_llm cfg groq gemini prompt
     = ([primary cfg, secondary cfg], ask (secondary cfg) groq gemini prompt)"
  by (simp add: call_llm_def primary_def secondary_def ask_def split: if_splits)

lemma call_llm_primary_answers:
  "ask (primary cfg) groq gemini prompt = Inr txt \<Longrightarrow>
   call_llm cfg groq gemini prompt = ([primary cfg], Inr txt)"
  by (simp add: call_llm_def primary_def secondary_def ask_def split: if_splits)

lemma generated_tone:
  "tone \<in> set PROMPTS \<Longrightarrow>
   map_of (generate_comments cfg groq gemini p) tone = Some (generate_tone cfg groq gemini p tone)"
  by (auto simp: generate_comments_def PROMPTS_def)

lemma generate_tone_cong:
  "groq' (tone, p) = groq (tone, p) \<Longrightarrow> gemini' (tone, p) = gemini (tone, p) \<Longrightarrow>
   generate_tone cfg groq' gemini' p tone = generate_tone cfg groq gemini p tone"
  by (simp add: generate_tone_def call_llm_def split: sum.splits)

lemma ex_generated:
  "generate_comments cfg_default down gemini_but_question raw1
     = [(''challenge'', ''Agents need memory.'', [TooShort 19]),
        (''expand'', ''Agents need memory.'', [TooShort 19]),
        (''nuanced'', ''Agents need memory.'', [TooShort 19]),
        (''question'', '''', [GenerationFailed ''quota''])]"
  by (simp add: generate_comments_def generate_tone_def call_llm_def PROMPTS_def cfg_default_def
      down_def gemini_but_question_def validate_comment_def Let_def lower_def lower_char_def
      GENERIC_OPENERS_def DOMAIN_TERMS_def)

text \<open>
  C4. For every tone of a candidate post: when the primary provider answers, no other
  call is made; when it fails, the request is sent once more, to the secondary provider,
  whose answer is the result of the call; when both fail, the tone's result is the empty
  string with a generation-failed issue (carrying the secondary's error); and the result
  of any other tone is the same whatever the providers do on this tone's prompt.
\<close>

theorem generation_fallback:
  assumes "tone \<in> set PROMPTS"
  shows "(ask (primary cfg) groq gemini (tone, p) = Inr txt \<longrightarrow>
            call_llm cfg groq gemini (tone, p) = ([primary cfg], Inr txt)) \<and>
         (ask (primary cfg) groq gemini (tone, p) = Inl e \<longrightarrow>
            call_llm cfg groq gemini (tone, p)
              = ([primary cfg, secondary cfg], ask (secondary cfg) groq gemini (tone, p))) \<and>
         (ask (primary cfg) groq gemini (tone, p) = Inl e \<and>
          ask (secondary cfg) groq gemini (tone, p) = Inl e' \<longrightarrow>
            map_of (generate_comments cfg groq gemini p) tone = Some ('''', [GenerationFailed e'])) \<and>
         (\<forall>other \<in> set PROMPTS. other \<noteq> tone \<and>
            (\<forall>prompt. fst prompt \<noteq> tone \<longrightarrow>
               groq' prompt = groq prompt \<and> gemini' prompt = gemini prompt) \<longrightarrow>
            map_of (generate_comments cfg groq' gemini' p) other
              = map_of (generate_comments cfg groq gemini p) other)"
proof (intro conjI impI ballI)
  assume "ask (primary cfg) groq gemini (tone, p) = Inr txt"
  then show "call_llm cfg groq gemini (tone, p) = ([primary cfg], Inr txt)"
    by (rule call_llm_primary_answers)
next
  assume "ask (primary cfg) groq gemini (tone, p) = Inl e"
  then show "call_llm cfg groq gemini (tone, p)
               = ([primary cfg, secondary cfg], ask (secondary cfg) groq gemini (tone, p))"
    by (rule call_llm_primary_fails)
next
  assume both: "ask (primary cfg) groq gemini (tone, p) = Inl e \<and>
                ask (secondary cfg) groq gemini (tone, p) = Inl e'"
  then have "snd (call_llm cfg groq gemini (tone, p)) = Inl e'"
    by (simp add: call_llm_primary_fails)
  then have "generate_tone cfg groq gemini p tone = ('''', [GenerationFailed e'])"
    by (simp add: generate_tone_def)
  with assms show "map_of (generate_comments cfg groq gemini p) tone
                     = Some ('''', [GenerationFailed e'])"
    by (simp add: generated_tone)
next
  fix other
  assume other: "other \<in> set PROMPTS"
    and h: "other \<noteq> tone \<and> (\<forall>prompt. fst prompt \<noteq> tone \<longrightarrow>
               groq' prompt = groq prompt \<and> gemini' prompt = gemini prompt)"
  then have "groq' (other, p) = groq (other, p)" "gemini' (other, p) = gemini (other, p)"
    by simp_all
  then have "generate_tone cfg groq' gemini' p other = generate_tone cfg groq gemini p other"
    by (rule generate_tone_cong)
  with other show "map_of (generate_comments cfg groq' gemini' p) other
                     = map_of (generate_comments cfg groq gemini p) other"
    by (simp add: generated_tone)
qed

theorem generation_fallback_witness:
  "''question'' \<in> set PROMPTS \<and> ''challenge'' \<in> set PROMPTS \<and>
   ask (primary cfg_default) gemini_up down (''challenge'', raw1) = Inr ''Agents need memory.'' \<and>
   call_llm cfg_default gemini_up down (''challenge'', raw1) = ([Groq], Inr ''Agents need memory.'') \<and>
   ask (primary cfg_default) down gemini_but_question (''question'', raw1) = Inl ''unavailable'' \<and>
   ask (secondary cfg_default) down gemini_but_question (''question'', raw1) = Inl ''quota'' \<and>
   call_llm cfg_default down gemini_but_question (''question'', raw1)
     = ([Groq, Gemini], Inl ''quota'') \<and>
   generate_comments cfg_default down gemini_but_question raw1
     = [(''challenge'', ''Agents need memory.'', [TooShort 19]),
        (''expand'', ''Agents need memory.'', [TooShort 19]),
        (''nuanced'', ''Agents need memory.'', [TooShort 19]),
        (''question'', '''', [GenerationFailed ''quota''])] \<and>
   map_of (generate_comments cfg_default down gemini_up raw1) ''challenge''
     = map_of (generate_comments cfg_default down gemini_but_question raw1) ''challenge''"
proof -
  have tones: "''question'' \<in> set PROMPTS" "''challenge'' \<in> set PROMPTS"
    by (simp_all add: PROMPTS_def)
  have up: "ask (primary cfg_default) gemini_up down (''challenge'', raw1)
              = Inr ''Agents need memory.''"
    by (simp add: ask_def primary_def cfg_default_def gemini_up_def)
  have fails: "ask (primary cfg_default) down gemini_but_question (''question'', raw1)
                 = Inl ''unavailable''"
    "ask (secondary cfg_default) down gemini_but_question (''question'', raw1) = Inl ''quota''"
    by (simp_all add: ask_def primary_def secondary_def cfg_default_def down_def
        gemini_but_question_def)
  have agree: "\<forall>prompt. fst prompt \<noteq> ''question'' \<longrightarrow>
      down prompt = down prompt \<and> gemini_up prompt = gemini_but_question prompt"
    by (simp add: gemini_up_def gemini_but_question_def split_beta)
  have kinds: "primary cfg_default = Groq" "secondary cfg_default = Gemini"
    by (simp_all add: primary_def secondary_def cfg_default_def)
  from generation_fallback [OF tones(2), of cfg_default gemini_up down raw1
                              "''Agents need memory.''"]
       generation_fallback [OF tones(1), of cfg_default down gemini_but_question raw1 _
                              "''unavailable''" "''quota''" down gemini_up]
       tones up fails agree kinds ex_generated
  show ?thesis by simp
qed

section \<open>The account scheduler\<close>

lemma map_of_upsert:
  "map_of (if list_ex (\<lambda>(h', _). h' = h) xs
           then map (\<lambda>(h', checked). if h' = h then (h', Some t) else (h', checked)) xs
           else xs @ [(h, Some t)]) h = Some (Some t)"
  by (induction xs) (auto split: if_splits)

lemma last_check_updated: "get_last_check_time (update_last_check_time t h db) h = Some t"
  using map_of_upsert [of h "account_checks db" t]
  by (simp add: get_last_check_time_def update_last_check_time_def split: if_splits)

lemma check_account_skip:
  "\<not> due now acct db \<Longrightarrow> check_account scrape ts now seen acct db = (db, [], Skipping (handle acct))"
  by (simp add: check_account_def due_def Let_def split: option.splits)

lemma check_account_fail:
  "due now acct db \<Longrightarrow> scrape (handle acct) = Inl e \<Longrightarrow>
   check_account scrape ts now seen acct db = (db, [], ErrorScraping (handle acct) e)"
  by (simp add: check_account_def due_def Let_def split: option.splits)

lemma check_account_poll:
  "due now acct db \<Longrightarrow> scrape (handle acct) = Inr ps \<Longrightarrow>
   \<exists>new. check_account scrape ts now seen acct db
           = (update_last_check_time (ts (handle acct)) (handle acct) db, new,
              PolledNew (handle acct) (length new))"
  by (simp add: check_account_def due_def Let_def split: option.splits)

lemma accounts_loop_acc:
  "accounts_loop scrape ts now seen accts db all logged
     = (case accounts_loop scrape ts now seen accts db [] [] of
          (d, ps, entries) \<Rightarrow> (d, all @ ps, logged @ entries))"
proof (induction accts arbitrary: db all logged)
  case Nil
  then show ?case by simp
next
  case (Cons a accts)
  obtain d new entry where step: "check_account scrape ts now seen a db = (d, new, entry)"
    by (metis prod_cases3)
  obtain d' ps entries where rest: "accounts_loop scrape ts now seen accts d [] [] = (d', ps, entries)"
    by (metis prod_cases3)
  show ?case
    using Cons.IH [of d "all @ new" "logged @ [entry]"] Cons.IH [of d "[] @ new" "[] @ [entry]"]
    by (simp add: step rest)
qed

lemma check_monitored_accounts_Cons:
  "check_monitored_accounts scrape ts now seen (acct # rest) db
     = (case check_account scrape ts now seen acct db of
          (d, new, entry) \<Rightarrow>
            (case check_monitored_accounts scrape ts now seen rest d of
               (d', ps, entries) \<Rightarrow> (d', new @ ps, entry # entries)))"
proof -
  obtain d new entry where step: "check_account scrape ts now seen acct db = (d, new, entry)"
    by (metis prod_cases3)
  obtain d' ps entries where rest: "accounts_loop scrape ts now seen rest d [] [] = (d', ps, entries)"
    by (metis prod_cases3)
  have "accounts_loop scrape ts now seen rest d new [entry] = (d', new @ ps, [entry] @ entries)"
    using accounts_loop_acc [of scrape ts now seen rest d new "[entry]"] rest by simp
  then show ?thesis by (simp add: check_monitored_accounts_def step rest)
qed

lemma check_monitored_accounts_length:
  "length (snd (snd (check_monitored_accounts scrape ts now seen accts db))) = length accts"
proof (induction accts arbitrary: db)
  case Nil
  show ?case by (simp add: check_monitored_accounts_def)
next
  case (Cons a accts)
  obtain d new entry where step: "check_account scrape ts now seen a db = (d, new, entry)"
    by (metis prod_cases3)
  obtain d' ps entries
    where rest: "check_monitored_accounts scrape ts now seen accts d = (d', ps, entries)"
    by (metis prod_cases3)
  from Cons.IH [of d] show ?case
    by (simp add: check_monitored_accounts_Cons step rest)
qed

text \<open>
  C6. For a watched account whose last-check time \<open>t\<close> is recorded, the scheduler
  skips it if and only if \<open>now - t\<close> is less than \<open>check_every_hours\<close>, and a skipped
  account leaves the store as it is. When the account is polled, whatever the poll
  returns (no post at all, or only posts already seen), its \<open>last_checked_at\<close> is the
  store's clock reading at the write. When the poll of an account fails, the remaining
  accounts are processed as they would be without it, from the same store, the failure
  being logged; every account of the list gets its log entry.
\<close>

theorem scheduler_skips_polls_continues:
  "(get_last_check_time db (handle acct) = Some t \<longrightarrow>
      (snd (snd (check_account scrape ts now seen acct db)) = Skipping (handle acct))
        = (now - t < check_every_hours acct * 3600000000)) \<and>
   (get_last_check_time db (handle acct) = Some t \<and>
    now - t < check_every_hours acct * 3600000000 \<longrightarrow>
      check_account scrape ts now seen acct db = (db, [], Skipping (handle acct))) \<and>
   (due now acct db \<and> scrape (handle acct) = Inr ps \<longrightarrow>
      get_last_check_time (fst (check_account scrape ts now seen acct db)) (handle acct)
        = Some (ts (handle acct))) \<and>
   (due now acct db \<and> scrape (handle acct) = Inl e \<longrightarrow>
      check_monitored_accounts scrape ts now seen (acct # rest) db
        = (case check_monitored_accounts scrape ts now seen rest db of
             (d, new, entries) \<Rightarrow> (d, new, ErrorScraping (handle acct) e # entries))) \<and>
   length (snd (snd (check_monitored_accounts scrape ts now seen accounts db))) = length accounts"
proof (intro conjI impI)
  assume t: "get_last_check_time db (handle acct) = Some t"
  show "(snd (snd (check_account scrape ts now seen acct db)) = Skipping (handle acct))
          = (now - t < check_every_hours acct * 3600000000)"
  proof (cases "now - t < check_every_hours acct * 3600000000")
    case True
    with t have "\<not> due now acct db" by (simp add: due_def)
    with True show ?thesis by (simp add: check_account_skip)
  next
    case False
    with t have d: "due now acct db" by (simp add: due_def)
    show ?thesis
    proof (cases "scrape (handle acct)")
      case (Inl e)
      with d False show ?thesis by (simp add: check_account_fail)
    next
      case (Inr ps)
      from check_account_poll [where scrape = scrape and ts = ts and seen = seen, OF d Inr] False
      show ?thesis by auto
    qed
  qed
next
  assume "get_last_check_time db (handle acct) = Some t \<and>
    now - t < check_every_hours acct * 3600000000"
  then have "\<not> due now acct db" by (simp add: due_def)
  then show "check_account scrape ts now seen acct db = (db, [], Skipping (handle acct))"
    by (rule check_account_skip)
next
  assume "due now acct db \<and> scrape (handle acct) = Inr ps"
  then have "due now acct db" "scrape (handle acct) = Inr ps" by simp_all
  from check_account_poll [where scrape = scrape and ts = ts and seen = seen, OF this]
  show "get_last_check_time (fst (check_account scrape ts now seen acct db)) (handle acct)
          = Some (ts (handle acct))"
    by (auto simp: last_check_updated)
next
  assume "due now acct db \<and> scrape (handle acct) = Inl e"
  then have "check_account scrape ts now seen acct db = (db, [], ErrorScraping (handle acct) e)"
    by (simp add: check_account_fail)
  then show "check_monitored_accounts scrape ts now seen (acct # rest) db
        = (case check_monitored_accounts scrape ts now seen rest db of
             (d, new, entries) \<Rightarrow> (d, new, ErrorScraping (handle acct) e # entries))"
    by (simp add: check_monitored_accounts_Cons)
next
  show "length (snd (snd (check_monitored_accounts scrape ts now seen accounts db)))
          = length accounts"
    by (rule check_monitored_accounts_length)
qed

lemmas scheduler_defs = check_monitored_accounts_def check_account_def get_last_check_time_def
  update_last_check_time_def due_def karpathy_def lecun_def broken_def db_checked_def
  profiles_def empty_db_def hour_def Let_def

lemma ex_batch:
  "check_monitored_accounts profiles (\<lambda>h. 7 * hour + 5) (7 * hour) {} [broken, lecun] db_checked
     = (update_last_check_time (7 * hour + 5) ''ylecun'' db_checked,
        [raw_unknown\<lparr>priority_boost := 1, source := Some ''account_monitor''\<rparr>],
        [ErrorScraping ''nobody'' ''timeout'', PolledNew ''ylecun'' 1])"
  by (simp add: scheduler_defs raw_unknown_def raw1_def)

theorem scheduler_skips_polls_continues_witness:
  "get_last_check_time db_checked (handle karpathy) = Some 0 \<and>
   2 * hour - 0 < check_every_hours karpathy * 3600000000 \<and>
   check_account profiles (\<lambda>h. 2 * hour + 5) (2 * hour) {} karpathy db_checked
     = (db_checked, [], Skipping ''karpathy'') \<and>
   \<not> 7 * hour - 0 < check_every_hours karpathy * 3600000000 \<and>
   due (7 * hour) karpathy db_checked \<and> profiles (handle karpathy) = Inr [] \<and>
   snd (snd (check_account profiles (\<lambda>h. 7 * hour + 5) (7 * hour) {} karpathy db_checked))
     \<noteq> Skipping ''karpathy'' \<and>
   get_last_check_time
     (fst (check_account profiles (\<lambda>h. 7 * hour + 5) (7 * hour) {} karpathy db_checked))
     ''karpathy'' = Some (7 * hour + 5) \<and>
   due (7 * hour) broken db_checked \<and> profiles (handle broken) = Inl ''timeout'' \<and>
   check_monitored_accounts profiles (\<lambda>h. 7 * hour + 5) (7 * hour) {} [broken, lecun] db_checked
     = (update_last_check_time (7 * hour + 5) ''ylecun'' db_checked,
        [raw_unknown\<lparr>priority_boost := 1, source := Some ''account_monitor''\<rparr>],
        [ErrorScraping ''nobody'' ''timeout'', PolledNew ''ylecun'' 1])"
proof -
  have facts: "get_last_check_time db_checked (handle karpathy) = Some 0"
    "2 * hour - 0 < check_every_hours karpathy * 3600000000"
    "\<not> 7 * hour - 0 < check_every_hours karpathy * 3600000000"
    "due (7 * hour) karpathy db_checked" "profiles (handle karpathy) = Inr []"
    "due (7 * hour) broken db_checked" "profiles (handle broken) = Inl ''timeout''"
    by (simp_all add: scheduler_defs)
  from scheduler_skips_polls_continues
         [of db_checked karpathy 0 profiles "\<lambda>h. 2 * hour + 5" "2 * hour" "{}"]
       scheduler_skips_polls_continues
         [of db_checked karpathy 0 profiles "\<lambda>h. 7 * hour + 5" "7 * hour" "{}" "[]"]
       scheduler_skips_polls_continues
         [of db_checked broken _ profiles "\<lambda>h. 7 * hour + 5" "7 * hour" "{}" _ "''timeout''"
             "[lecun]"]
       facts ex_batch
  show ?thesis by (simp add: karpathy_def broken_def)
qed

end
